theory Spec2Isabelle
  imports Main "HOL-Library.Multiset"
begin

section \<open>Values, errors and promises\<close>

text \<open>
  The repository is three TypeScript classes: \<open>Thread\<close> (a worker thread with one
  outstanding request), \<open>Queue\<close> (a pool of threads fed from a backlog) and
  \<open>Parallel\<close> (a bounded runner of an asynchronous handler on the event loop).

  JavaScript runs every callback to completion on one control thread, so each method
  call and each callback is one atomic step of the model; what the environment decides
  (which worker answers, whether a handler fails, which timer fires) arrives as an event.

  A payload is a value of the caller's type, \<open>null\<close> or \<open>undefined\<close>.
\<close>

datatype 't js = Undefined | Null | Val 't

datatype error = Error string | TypeError string

text \<open>
  A promise is pending until it is fulfilled or rejected; settling a settled promise
  does nothing. The store holds every promise created so far, a promise being its index.
\<close>

datatype 't pstate = Pending | Fulfilled "'t js" | Rejected error

type_synonym 't store = "'t pstate list"

definition new_promise :: "'t store \<Rightarrow> nat \<times> 't store" where
  "new_promise st = (length st, st @ [Pending])"

definition settle :: "nat \<Rightarrow> 't pstate \<Rightarrow> 't store \<Rightarrow> 't store" where
  "settle p v st = (if p < length st \<and> st ! p = Pending then st[p := v] else st)"

section \<open>Thread\<close>

text \<open>
  \<open>_worker\<close> is the worker of \<open>worker_threads\<close>: the model keeps the script it
  was spawned with, the messages handed to \<open>postMessage\<close> and whether
  \<open>terminate\<close> was called. \<open>_resolver\<close> and \<open>_rejector\<close> are the two functions of
  the promise made by the last \<open>post\<close>, each held as that promise's index; they are
  \<open>undefined\<close> (\<open>None\<close>) until the first \<open>post\<close> and are never cleared.
\<close>

record 'k worker =
  script :: string
  posted :: "'k list"
  terminated :: bool

record 'k thread =
  worker :: "'k worker"
  resolver :: "nat option"
  rejector :: "nat option"

text \<open>
  The events a worker emits: a message with its payload, an error with the \<open>Error\<close>
  thrown in the worker, or its exit with a code.
\<close>

datatype 't wevent = Message "'t js" | WError error | Exit int

definition Thread_new :: "string \<Rightarrow> 'k thread" where
  "Thread_new scr =
     \<lparr>worker = \<lparr>script = scr, posted = [], terminated = False\<rparr>,
      resolver = None, rejector = None\<rparr>"

text \<open>\<open>post(value)\<close>: a new promise whose two functions replace the stored pair.\<close>

definition Thread_post :: "'k \<Rightarrow> 'k thread \<Rightarrow> 't store \<Rightarrow> nat \<times> 'k thread \<times> 't store" where
  "Thread_post v t st =
     (let (p, st') = new_promise st
      in (p,
          t\<lparr>resolver := Some p, rejector := Some p,
            worker := (worker t)\<lparr>posted := posted (worker t) @ [v]\<rparr>\<rparr>,
          st'))"

definition close :: "'k thread \<Rightarrow> 'k thread" where
  "close t = t\<lparr>worker := (worker t)\<lparr>terminated := True\<rparr>\<rparr>"

text \<open>
  \<open>_receiveMessage(err, data)\<close>: nothing without a stored pair; otherwise the rejector
  for an error and the resolver for a payload.
\<close>

definition receiveMessage :: "error option \<Rightarrow> 't js \<Rightarrow> 'k thread \<Rightarrow> 't store \<Rightarrow> 't store" where
  "receiveMessage err data t st =
     (if resolver t = None \<or> rejector t = None then st
      else case err of
             Some e \<Rightarrow> settle (the (rejector t)) (Rejected e) st
           | None \<Rightarrow> settle (the (resolver t)) (Fulfilled data) st)"

text \<open>The three listeners the constructor installs on the worker.\<close>

definition on_event :: "'t wevent \<Rightarrow> 'k thread \<times> 't store \<Rightarrow> 'k thread \<times> 't store" where
  "on_event ev ts =
     (case ts of (t, st) \<Rightarrow>
        (case ev of
           Message val \<Rightarrow> (t, receiveMessage None val t st)
         | WError err \<Rightarrow> (t, receiveMessage (Some err) Undefined t st)
         | Exit signal \<Rightarrow>
             if signal = 0 then (t, receiveMessage (Some (Error ''Internal error'')) Undefined t st)
             else (t, receiveMessage None Null t st)))"

text \<open>
  \<open>Thread.Execute(script, data)\<close> is an \<open>async\<close> function with one \<open>await\<close>. Up to the
  \<open>await\<close> it makes a thread and posts the data; it resumes when the posted promise
  has settled: on a value it closes the thread and returns the value, on a rejection the
  \<open>await\<close> throws, so the rest of the body is skipped and the error goes to the caller.
\<close>

definition Execute_begin :: "string \<Rightarrow> 'k \<Rightarrow> 't store \<Rightarrow> nat \<times> 'k thread \<times> 't store" where
  "Execute_begin scr data st = Thread_post data (Thread_new scr) st"

definition Execute_resume :: "'t pstate \<Rightarrow> 'k thread \<Rightarrow> ('k thread \<times> (error + 't js)) option" where
  "Execute_resume r t =
     (case r of
        Pending \<Rightarrow> None
      | Fulfilled v \<Rightarrow> Some (close t, Inr v)
      | Rejected e \<Rightarrow> Some (t, Inl e))"

text \<open>
  A whole call: the events the worker emits while the call is suspended, then the
  resumption. \<open>None\<close> when the promise is still pending after them: the call has not
  returned.
\<close>

definition Execute :: "string \<Rightarrow> 'k \<Rightarrow> 't wevent list \<Rightarrow> ('k thread \<times> (error + 't js)) option" where
  "Execute scr data evs =
     (case Execute_begin scr data [] of (p, t, st) \<Rightarrow>
        (case foldl (\<lambda>ts ev. on_event ev ts) (t, st) evs of (t', st') \<Rightarrow>
           Execute_resume (st' ! p) t'))"

section \<open>Parallel\<close>

text \<open>
  The numbers of \<open>Parallel\<close> are counts and indices, modelled as integers. The handler
  is the caller's code: the model records every call of it with its argument, and an event
  says when a call has succeeded or failed.
\<close>

record parallel_options =
  opt_name :: string
  opt_count :: int
  opt_concurrency :: int

text \<open>
  A call of the handler: the first call of a \<open>consume\<close>, or the second one after the
  backoff. A second call is logged with the argument of the first call of the same
  \<open>consume\<close> and with the argument it passes itself.
\<close>

datatype invocation = FirstCall int | RetryCall int int

text \<open>
  A running \<open>consume\<close> is suspended at one of its three \<open>await\<close>s: on the first call of
  the handler, on the timer (with its delay), or on the second call. \<open>first_index\<close> is the
  argument of its first call; the code keeps no such variable, the model does to name the
  unit a second call belongs to.
\<close>

datatype phase = AwaitFirst | AwaitBackoff nat | AwaitRetry

record loop =
  first_index :: int
  phase :: phase

text \<open>
  The fields of the class, then what the runtime holds for it: the suspended \<open>consume\<close>
  calls, the log of handler calls, the promises handed out (\<open>True\<close> once resolved), the
  promises whose \<open>pause\<close> loop is asleep, and what was written to the console.
\<close>

record parallel =
  name :: string
  count :: int
  offsetCount :: int
  concurrency :: int
  paused :: bool
  processingCount :: int
  finishHandler :: "nat option"
  loops :: "loop list"
  calls :: "invocation list"
  futures :: "bool list"
  pollers :: "nat list"
  errorLog :: "int list"
  warnings :: nat

text \<open>A number is falsy when it is zero.\<close>

definition truthy :: "int \<Rightarrow> bool" where
  "truthy n = (n \<noteq> 0)"

definition Parallel_new :: "parallel_options \<Rightarrow> parallel" where
  "Parallel_new options =
     (let c = (if truthy (opt_concurrency options) then opt_concurrency options
               else opt_count options)
      in \<lparr>name = opt_name options,
          count = opt_count options,
          offsetCount = 0,
          concurrency = (if opt_count options < c then opt_count options else c),
          paused = False,
          processingCount = 0,
          finishHandler = None,
          loops = [], calls = [], futures = [], pollers = [], errorLog = [], warnings = 0\<rparr>)"

definition drop_nth :: "nat \<Rightarrow> 'a list \<Rightarrow> 'a list" where
  "drop_nth i xs = take i xs @ drop (Suc i) xs"

text \<open>
  \<open>consume()\<close> up to its first \<open>await\<close>: both counters go up and the handler is called
  with the cursor as it then stands.
\<close>

definition Parallel_consume :: "parallel \<Rightarrow> parallel" where
  "Parallel_consume s =
     (let s1 = s\<lparr>processingCount := processingCount s + 1\<rparr>;
          s2 = s1\<lparr>offsetCount := offsetCount s1 + 1\<rparr>
      in s2\<lparr>calls := calls s2 @ [FirstCall (offsetCount s2)],
            loops := loops s2 @ [\<lparr>first_index = offsetCount s2, phase = AwaitFirst\<rparr>]\<rparr>)"

text \<open>\<open>consume()\<close> after its \<open>try\<close> statement.\<close>

definition consume_tail :: "parallel \<Rightarrow> parallel" where
  "consume_tail s =
     (let s1 = s\<lparr>processingCount := processingCount s - 1\<rparr>
      in if offsetCount s1 = count s1 then
           (case finishHandler s1 of
              Some p \<Rightarrow> s1\<lparr>futures := (futures s1)[p := True]\<rparr>
            | None \<Rightarrow> s1)
         else if \<not> paused s1 \<and> offsetCount s1 + processingCount s1 < count s1 then
           Parallel_consume s1
         else s1)"

text \<open>\<open>start()\<close>: one \<open>consume\<close> for each \<open>i\<close> from 0 below \<open>concurrency\<close>.\<close>

definition start :: "parallel \<Rightarrow> parallel" where
  "start s = (Parallel_consume ^^ nat (concurrency s)) s"

definition create :: "string \<Rightarrow> int \<Rightarrow> int \<Rightarrow> parallel" where
  "create nm cnt conc =
     start (Parallel_new \<lparr>opt_name = nm, opt_count = cnt, opt_concurrency = conc\<rparr>)"

text \<open>
  In \<open>pause()\<close> the guard reads \<open>this.processingCount === 0 || this.pause\<close>, and
  \<open>this.pause\<close> is the method itself: a function, which a condition takes as true.
\<close>

definition this_pause :: bool where
  "this_pause = True"

text \<open>
  The loop of the promise that \<open>pause()\<close> makes: asleep for 500 while units are in
  flight, resolved when it finds none.
\<close>

definition pause_loop :: "nat \<Rightarrow> parallel \<Rightarrow> parallel" where
  "pause_loop p s =
     (if processingCount s > 0 then s\<lparr>pollers := pollers s @ [p]\<rparr>
      else s\<lparr>futures := (futures s)[p := True]\<rparr>)"

text \<open>\<open>pause()\<close> returns a promise: its index, and the state after the call.\<close>

definition Parallel_pause :: "parallel \<Rightarrow> nat \<times> parallel" where
  "Parallel_pause s =
     (if processingCount s = 0 \<or> this_pause then
        (length (futures s), s\<lparr>warnings := warnings s + 1, futures := futures s @ [True]\<rparr>)
      else
        (let s1 = s\<lparr>paused := True\<rparr>;
             p = length (futures s1)
         in (p, pause_loop p (s1\<lparr>futures := futures s1 @ [False]\<rparr>))))"

definition Parallel_resume :: "parallel \<Rightarrow> parallel" where
  "Parallel_resume s =
     (if processingCount s > 0 then s\<lparr>warnings := warnings s + 1\<rparr>
      else
        (let s1 = s\<lparr>paused := False\<rparr>;
             s2 = s1\<lparr>concurrency := min (concurrency s1) (count s1 - concurrency s1)\<rparr>
         in (Parallel_consume ^^ nat (concurrency s2)) s2))"

definition waitFinish :: "parallel \<Rightarrow> nat \<times> parallel" where
  "waitFinish s =
     (if offsetCount s = count s then
        (length (futures s), s\<lparr>futures := futures s @ [True]\<rparr>)
      else
        (length (futures s),
         s\<lparr>futures := futures s @ [False], finishHandler := Some (length (futures s))\<rparr>))"

text \<open>
  What can happen to a runner: a call of one of its methods; the handler call that the
  \<open>i\<close>-th suspended \<open>consume\<close> awaits succeeds or fails; its timer fires; the \<open>i\<close>-th
  sleeping \<open>pause\<close> loop wakes. An event that names no such \<open>consume\<close> or loop, or one
  in another phase, cannot occur and changes nothing.
\<close>

datatype pevent =
  Start | PauseCall | ResumeCall | WaitFinishCall
  | HandlerOk nat | HandlerFail nat | TimerFired nat | PollTick nat

definition handler_ok :: "nat \<Rightarrow> parallel \<Rightarrow> parallel" where
  "handler_ok i s =
     (if i < length (loops s) then
        (case phase (loops s ! i) of
           AwaitBackoff d \<Rightarrow> s
         | _ \<Rightarrow> consume_tail (s\<lparr>loops := drop_nth i (loops s)\<rparr>))
      else s)"

text \<open>
  A failed first call starts the timer of 5000; a failed second call writes the error
  line, which prints the cursor, and goes on to the tail.
\<close>

definition handler_fail :: "nat \<Rightarrow> parallel \<Rightarrow> parallel" where
  "handler_fail i s =
     (if i < length (loops s) then
        (case phase (loops s ! i) of
           AwaitFirst \<Rightarrow> s\<lparr>loops := (loops s)[i := (loops s ! i)\<lparr>phase := AwaitBackoff 5000\<rparr>]\<rparr>
         | AwaitBackoff d \<Rightarrow> s
         | AwaitRetry \<Rightarrow>
             consume_tail (s\<lparr>errorLog := errorLog s @ [offsetCount s],
                              loops := drop_nth i (loops s)\<rparr>))
      else s)"

text \<open>After the timer the handler is called again, with the cursor as it stands now.\<close>

definition timer_fired :: "nat \<Rightarrow> parallel \<Rightarrow> parallel" where
  "timer_fired i s =
     (if i < length (loops s) then
        (case phase (loops s ! i) of
           AwaitBackoff d \<Rightarrow>
             s\<lparr>calls := calls s @ [RetryCall (first_index (loops s ! i)) (offsetCount s)],
               loops := (loops s)[i := (loops s ! i)\<lparr>phase := AwaitRetry\<rparr>]\<rparr>
         | _ \<Rightarrow> s)
      else s)"

definition poll_tick :: "nat \<Rightarrow> parallel \<Rightarrow> parallel" where
  "poll_tick j s =
     (if j < length (pollers s) then
        pause_loop (pollers s ! j) (s\<lparr>pollers := drop_nth j (pollers s)\<rparr>)
      else s)"

fun pstep :: "pevent \<Rightarrow> parallel \<Rightarrow> parallel" where
  "pstep Start s = start s"
| "pstep PauseCall s = snd (Parallel_pause s)"
| "pstep ResumeCall s = Parallel_resume s"
| "pstep WaitFinishCall s = snd (waitFinish s)"
| "pstep (HandlerOk i) s = handler_ok i s"
| "pstep (HandlerFail i) s = handler_fail i s"
| "pstep (TimerFired i) s = timer_fired i s"
| "pstep (PollTick j) s = poll_tick j s"

definition prun :: "pevent list \<Rightarrow> parallel \<Rightarrow> parallel" where
  "prun evs s = foldl (\<lambda>s ev. pstep ev s) s evs"

text \<open>The cursor values claimed so far, in order: the arguments of the first calls.\<close>

fun claimed :: "invocation list \<Rightarrow> int list" where
  "claimed [] = []"
| "claimed (FirstCall k # cs) = k # claimed cs"
| "claimed (RetryCall u k # cs) = claimed cs"

section \<open>Queue\<close>

text \<open>
  \<open>post\<close> takes one item or an array of items. A synchronous piece of code either
  runs to its end or throws, leaving the state as it was at the throw.
\<close>

datatype 'k items = One 'k | Many "'k list"

datatype 'a outcome = Normal 'a | Raised error 'a

fun state_of :: "'a outcome \<Rightarrow> 'a" where
  "state_of (Normal s) = s"
| "state_of (Raised e s) = s"

text \<open>
  The fields of the class (the width is a number of threads, a natural number; of the
  handler only its presence matters here), then what the runtime holds: the promises, and
  for every \<open>thread.post(item)\<close> made by \<open>_consume\<close> the pair of the thread index and
  the posted promise, until the \<open>then\<close>/\<open>catch\<close> callbacks chained to that promise have
  run. \<open>handled\<close> logs the calls of the handler, \<open>unhandled\<close> the errors thrown out of
  the last callback of a chain, \<open>stop_sleeping\<close> counts the \<open>stop()\<close> calls asleep in
  their loop.
\<close>

record ('k, 't) queue_state =
  consumerScript :: string
  concurrence :: nat
  has_handler :: bool
  queue :: "'k list"
  pool :: "'k thread list"
  availableThread :: "nat list"
  active :: bool
  onceResolver :: "nat option"
  store :: "'t store"
  reactions :: "(nat \<times> nat) list"
  handled :: "(error option \<times> 't js) list"
  unhandled :: "error list"
  stop_sleeping :: nat

definition Queue_new :: "string \<Rightarrow> nat \<Rightarrow> bool \<Rightarrow> ('k, 't) queue_state" where
  "Queue_new consumer conc h =
     \<lparr>consumerScript = consumer, concurrence = conc, has_handler = h,
      queue = [], pool = [], availableThread = [], active = False, onceResolver = None,
      store = [], reactions = [], handled = [], unhandled = [], stop_sleeping = 0\<rparr>"

text \<open>
  \<open>_consume()\<close>. An index outside the pool reads \<open>undefined\<close>, and the call of
  \<open>post\<close> on it throws a TypeError after both \<open>shift\<close>s.
\<close>

definition Queue_consume :: "('k, 't) queue_state \<Rightarrow> ('k, 't) queue_state outcome" where
  "Queue_consume s =
     (if \<not> active s \<or> length (availableThread s) = 0 \<or> length (queue s) = 0 then Normal s
      else
        (let item = hd (queue s);
             threadIdx = hd (availableThread s);
             s1 = s\<lparr>queue := tl (queue s), availableThread := tl (availableThread s)\<rparr>
         in if threadIdx < length (pool s1) then
              (case Thread_post item (pool s1 ! threadIdx) (store s1) of (p, t, st) \<Rightarrow>
                 Normal (s1\<lparr>pool := (pool s1)[threadIdx := t], store := st,
                            reactions := reactions s1 @ [(threadIdx, p)]\<rparr>))
            else Raised (TypeError ''Cannot read properties of undefined'') s1))"

text \<open>
  \<open>_fillThreads()\<close>: the loop runs while a thread is available and an item is queued;
  \<open>None\<close> is the loop that never ends.
\<close>

partial_function (option) fillThreads ::
    "('k, 't) queue_state \<Rightarrow> ('k, 't) queue_state outcome option" where
  "fillThreads s =
     (if length (availableThread s) > 0 \<and> length (queue s) > 0 then
        (case Queue_consume s of
           Normal s' \<Rightarrow> fillThreads s'
         | Raised e s' \<Rightarrow> Some (Raised e s'))
      else Some (Normal s))"

declare fillThreads.simps [code]

text \<open>
  \<open>_resolve(threadIdx, err, response)\<close>. The handler is the caller's code: \<open>hthrow\<close>
  is what this call of it throws, if it throws.
\<close>

definition Queue_resolve ::
    "nat \<Rightarrow> error option \<Rightarrow> 't js \<Rightarrow> error option \<Rightarrow> ('k, 't) queue_state
      \<Rightarrow> ('k, 't) queue_state outcome option" where
  "Queue_resolve threadIdx err response hthrow s =
     (let s1 = s\<lparr>availableThread := availableThread s @ [threadIdx]\<rparr>;
          s2 = (if has_handler s1 then s1\<lparr>handled := handled s1 @ [(err, response)]\<rparr> else s1)
      in if has_handler s1 \<and> hthrow \<noteq> None then Some (Raised (the hthrow) s2)
         else
           (case fillThreads s2 of
              None \<Rightarrow> None
            | Some (Raised e s3) \<Rightarrow> Some (Raised e s3)
            | Some (Normal s3) \<Rightarrow>
                Some (Normal
                  (if onceResolver s3 \<noteq> None \<and> length (queue s3) = 0 then
                     s3\<lparr>store := settle (the (onceResolver s3)) (Fulfilled Undefined) (store s3)\<rparr>
                   else s3))))"

text \<open>
  The callbacks \<open>_consume\<close> chains to a posted promise,
  \<open>.then(val => _resolve(idx, null, val)).catch(err => _resolve(idx, err, null))\<close>, for
  the \<open>k\<close>-th pair held: nothing while the promise is pending. On a value the first
  callback runs, and the second one too when the first throws; on a rejection the second
  runs alone. \<open>h1\<close> and \<open>h2\<close> are what the handler throws in the first and the second
  \<open>_resolve\<close> that runs.
\<close>

definition react ::
    "nat \<Rightarrow> error option \<Rightarrow> error option \<Rightarrow> ('k, 't) queue_state
      \<Rightarrow> ('k, 't) queue_state option" where
  "react k h1 h2 s =
     (if k < length (reactions s) \<and> snd (reactions s ! k) < length (store s) then
        (let threadIdx = fst (reactions s ! k);
             s0 = s\<lparr>reactions := drop_nth k (reactions s)\<rparr>
         in case store s ! snd (reactions s ! k) of
              Pending \<Rightarrow> Some s
            | Fulfilled val \<Rightarrow>
                (case Queue_resolve threadIdx None val h1 s0 of
                   None \<Rightarrow> None
                 | Some (Normal s1) \<Rightarrow> Some s1
                 | Some (Raised e s1) \<Rightarrow>
                     (case Queue_resolve threadIdx (Some e) Null h2 s1 of
                        None \<Rightarrow> None
                      | Some (Normal s2) \<Rightarrow> Some s2
                      | Some (Raised e2 s2) \<Rightarrow> Some (s2\<lparr>unhandled := unhandled s2 @ [e2]\<rparr>)))
            | Rejected err \<Rightarrow>
                (case Queue_resolve threadIdx (Some err) Null h1 s0 of
                   None \<Rightarrow> None
                 | Some (Normal s1) \<Rightarrow> Some s1
                 | Some (Raised e2 s1) \<Rightarrow> Some (s1\<lparr>unhandled := unhandled s1 @ [e2]\<rparr>)))
      else Some s)"

text \<open>\<open>initialize()\<close>: the loop body for each \<open>i\<close> from 0 below the width.\<close>

definition spawn :: "('k, 't) queue_state \<Rightarrow> nat \<Rightarrow> ('k, 't) queue_state" where
  "spawn s i =
     s\<lparr>pool := pool s @ [Thread_new (consumerScript s)],
       availableThread := availableThread s @ [i]\<rparr>"

definition initialize :: "('k, 't) queue_state \<Rightarrow> ('k, 't) queue_state outcome option" where
  "initialize s = fillThreads (foldl spawn (s\<lparr>active := True\<rparr>) [0..<concurrence s])"

definition Queue_pause :: "('k, 't) queue_state \<Rightarrow> ('k, 't) queue_state" where
  "Queue_pause s = s\<lparr>active := False\<rparr>"

definition Queue_resume :: "('k, 't) queue_state \<Rightarrow> ('k, 't) queue_state outcome option" where
  "Queue_resume s = fillThreads (s\<lparr>active := True\<rparr>)"

text \<open>
  \<open>stop()\<close>: the flag is cleared, then the loop; each pass of the loop either goes to
  sleep for 1000 (\<open>False\<close>) or closes every thread of the pool and returns (\<open>True\<close>).
\<close>

definition stop_loop :: "('k, 't) queue_state \<Rightarrow> bool \<times> ('k, 't) queue_state" where
  "stop_loop s =
     (if length (availableThread s) \<noteq> concurrence s then (False, s)
      else (True, s\<lparr>pool := map close (pool s)\<rparr>))"

definition stop :: "('k, 't) queue_state \<Rightarrow> bool \<times> ('k, 't) queue_state" where
  "stop s = stop_loop (s\<lparr>active := False\<rparr>)"

text \<open>What \<open>post\<close> pushes: the elements of an array, or the one item.\<close>

definition items_of :: "'k items \<Rightarrow> 'k list" where
  "items_of its = (case its of Many xs \<Rightarrow> xs | One x \<Rightarrow> [x])"

text \<open>
  \<open>post(items, once)\<close>: the promise and the state after the call. The body runs inside
  the promise's executor, so what it throws rejects the promise.
\<close>

definition post ::
    "'k items \<Rightarrow> bool \<Rightarrow> ('k, 't) queue_state \<Rightarrow> (nat \<times> ('k, 't) queue_state) option" where
  "post its once s =
     (case new_promise (store s) of (p, st) \<Rightarrow>
        (let s1 = s\<lparr>store := st,
                    queue := queue s @ items_of its\<rparr>
         in case (if length (availableThread s1) > 0 then fillThreads s1 else Some (Normal s1)) of
              None \<Rightarrow> None
            | Some (Raised e s2) \<Rightarrow> Some (p, s2\<lparr>store := settle p (Rejected e) (store s2)\<rparr>)
            | Some (Normal s2) \<Rightarrow>
                Some (p, if once then s2\<lparr>onceResolver := Some p\<rparr>
                         else s2\<lparr>store := settle p (Fulfilled Undefined) (store s2)\<rparr>)))"

text \<open>An event of the \<open>i\<close>-th worker reaches the listeners of the \<open>i\<close>-th thread.\<close>

definition worker_event :: "nat \<Rightarrow> 't wevent \<Rightarrow> ('k, 't) queue_state \<Rightarrow> ('k, 't) queue_state" where
  "worker_event i ev s =
     (if i < length (pool s) then s\<lparr>store := snd (on_event ev (pool s ! i, store s))\<rparr> else s)"

text \<open>
  What can happen to a pool: a call of one of its methods, a sleeping \<open>stop()\<close> waking,
  an event of a worker, the callbacks of a settled posted promise. \<open>None\<close>: the step
  never ends.
\<close>

datatype ('k, 't) qevent =
  Initialize | Pause | Resume | Stop | StopWake
  | Post "'k items" bool | Worker nat "'t wevent" | React nat "error option" "error option"

definition after_stop_loop :: "bool \<times> ('k, 't) queue_state \<Rightarrow> ('k, 't) queue_state" where
  "after_stop_loop r =
     (if fst r then snd r else (snd r)\<lparr>stop_sleeping := stop_sleeping (snd r) + 1\<rparr>)"

fun qstep :: "('k, 't) qevent \<Rightarrow> ('k, 't) queue_state \<Rightarrow> ('k, 't) queue_state option" where
  "qstep Initialize s = map_option state_of (initialize s)"
| "qstep Pause s = Some (Queue_pause s)"
| "qstep Resume s = map_option state_of (Queue_resume s)"
| "qstep Stop s = Some (after_stop_loop (stop s))"
| "qstep StopWake s =
     (if stop_sleeping s > 0
      then Some (after_stop_loop (stop_loop (s\<lparr>stop_sleeping := stop_sleeping s - 1\<rparr>)))
      else Some s)"
| "qstep (Post its once) s = map_option snd (post its once s)"
| "qstep (Worker i ev) s = Some (worker_event i ev s)"
| "qstep (React k h1 h2) s = react k h1 h2 s"

fun qrun :: "('k, 't) qevent list \<Rightarrow> ('k, 't) queue_state \<Rightarrow> ('k, 't) queue_state option" where
  "qrun [] s = Some s"
| "qrun (ev # evs) s = (case qstep ev s of None \<Rightarrow> None | Some s' \<Rightarrow> qrun evs s')"

section \<open>Observations on runs\<close>

text \<open>
  The cursor never goes below zero, and the values claimed are exactly the values from
  1 to the cursor, in order.
\<close>

definition cursor_inv :: "parallel \<Rightarrow> bool" where
  "cursor_inv s = (0 \<le> offsetCount s \<and> claimed (calls s) = [1..offsetCount s])"

text \<open>
  The handler does not throw in an event; the number of \<open>initialize()\<close> calls among
  the events; the number of threads of the pool that have a posted request whose
  callbacks have not run yet.
\<close>

fun quiet :: "('k, 't) qevent \<Rightarrow> bool" where
  "quiet (React k h1 h2) = (h1 = None \<and> h2 = None)"
| "quiet ev = True"

definition inits :: "('k, 't) qevent list \<Rightarrow> nat" where
  "inits evs = count_list evs Initialize"

definition busyCount :: "('k, 't) queue_state \<Rightarrow> nat" where
  "busyCount s = length (filter (\<lambda>i. i \<in> set (map fst (reactions s))) [0..<length (pool s)])"

text \<open>
  The pool has \<open>n\<close> threads, and the indices available together with the indices of
  the posted requests still held are the multiset \<open>M\<close>.
\<close>

definition balanced :: "nat multiset \<Rightarrow> nat \<Rightarrow> nat \<Rightarrow> ('k, 't) queue_state \<Rightarrow> bool" where
  "balanced M n C s =
     (concurrence s = C \<and> length (pool s) = n
      \<and> mset (availableThread s) + mset (map fst (reactions s)) = M)"

text \<open>
  Every index the pool holds, available or with a posted request, is an index of one of
  its \<open>n\<close> threads, and the promise of every posted request held is one of the store.
\<close>

definition in_range :: "nat \<Rightarrow> ('k, 't) queue_state \<Rightarrow> bool" where
  "in_range n s =
     (length (pool s) = n \<and> (\<forall>i\<in>set (availableThread s). i < n)
      \<and> (\<forall>i\<in>set (map fst (reactions s)). i < n)
      \<and> (\<forall>p\<in>set (map snd (reactions s)). p < length (store s)))"

text \<open>
  From \<open>s\<close> to \<open>s'\<close> the backlog has only lost items at its front, promises have only
  been added, and the drain waiter and the flag are the same.
\<close>

definition extends :: "('k, 't) queue_state \<Rightarrow> ('k, 't) queue_state \<Rightarrow> bool" where
  "extends s s' =
     ((\<exists>m. queue s' = drop m (queue s)) \<and> (\<exists>zs. store s' = store s @ zs)
      \<and> onceResolver s' = onceResolver s \<and> active s' = active s)"

text \<open>
  What is read off a pool: the size of the available list, the number of busy threads
  and the width; whether \<open>stop()\<close> called now would return at once, and the number of
  busy threads; and for a promise and a state, the backlog and the promise's state.
\<close>

definition pool_view :: "('k, 't) queue_state \<Rightarrow> nat \<times> nat \<times> nat" where
  "pool_view s = (length (availableThread s), busyCount s, concurrence s)"

definition stop_view :: "('k, 't) queue_state \<Rightarrow> bool \<times> nat" where
  "stop_view s = (fst (stop s), busyCount s)"

definition future_view :: "nat \<times> ('k, 't) queue_state \<Rightarrow> 'k list \<times> 't pstate" where
  "future_view r = (queue (snd r), store (snd r) ! fst r)"

section \<open>Thread: the properties\<close>

lemma length_settle [simp]: "length (settle p v st) = length st"
  by (simp add: settle_def)

lemma length_on_event [simp]: "length (snd (on_event ev (t, st))) = length st"
  by (cases ev) (simp_all add: on_event_def receiveMessage_def split: option.splits)

lemma settle_pending:
  "p < length st \<Longrightarrow> st ! p = Pending \<Longrightarrow> settle p v st ! p = v"
  by (simp add: settle_def)

text \<open>
  C3. With a request pending (the stored pair belongs to a promise that is still
  pending), an exit with code 0 rejects that promise with the error
  \<open>Internal error\<close>, and an exit with any other code fulfils it with \<open>null\<close>.
\<close>

theorem exit_while_pending:
  assumes "resolver t = Some p" and "rejector t = Some p"
    and "p < length st" and "st ! p = Pending"
  shows "snd (on_event (Exit code) (t, st)) ! p =
           (if code = 0 then Rejected (Error ''Internal error'') else Fulfilled Null)"
  using assms by (simp add: on_event_def receiveMessage_def settle_pending)

theorem exit_while_pending_witness:
  "snd (on_event (Exit 0) (snd (Thread_post (5::nat) (Thread_new ''w.js'') []))) ! 0
     = (Rejected (Error ''Internal error'') :: nat pstate)
   \<and> snd (on_event (Exit 1) (snd (Thread_post (5::nat) (Thread_new ''w.js'') []))) ! 0
     = (Fulfilled Null :: nat pstate)"
proof -
  let ?t = "fst (snd (Thread_post (5::nat) (Thread_new ''w.js'') ([] :: nat store)))"
  let ?st = "snd (snd (Thread_post (5::nat) (Thread_new ''w.js'') ([] :: nat store)))"
  have h: "resolver ?t = Some 0" "rejector ?t = Some 0" "0 < length ?st" "?st ! 0 = Pending"
    by (simp_all add: Thread_post_def Thread_new_def new_promise_def)
  from exit_while_pending [OF h, of 0] exit_while_pending [OF h, of 1]
  show ?thesis by simp
qed

text \<open>
  C9. Without a stored pair, a message, an error or an exit with any code leaves the
  thread and every promise as they were.
\<close>

theorem event_without_request_ignored:
  "resolver t = None \<or> rejector t = None \<Longrightarrow> on_event ev (t, st) = (t, st)"
  by (cases ev) (auto simp: on_event_def receiveMessage_def)

theorem event_without_request_ignored_witness:
  "on_event (Exit 0) (Thread_new ''w.js'' :: nat thread, [Pending :: nat pstate])
     = (Thread_new ''w.js'', [Pending])
   \<and> on_event (Exit 3) (Thread_new ''w.js'' :: nat thread, [Pending :: nat pstate])
     = (Thread_new ''w.js'', [Pending])
   \<and> on_event (Message (Val 4)) (Thread_new ''w.js'' :: nat thread, [Pending :: nat pstate])
     = (Thread_new ''w.js'', [Pending])
   \<and> on_event (WError (Error ''boom'')) (Thread_new ''w.js'' :: nat thread, [Pending :: nat pstate])
     = (Thread_new ''w.js'', [Pending])"
proof -
  have h: "resolver (Thread_new ''w.js'' :: nat thread) = None
           \<or> rejector (Thread_new ''w.js'' :: nat thread) = None"
    by (simp add: Thread_new_def)
  show ?thesis
    by (simp add: event_without_request_ignored [OF h])
qed

text \<open>
  \<open>Execute\<close> sends exactly one message, and on a value it closes the thread and
  returns the value.
\<close>

lemma Execute_begin_posts_once:
  "Execute_begin scr data st = (p, t, st') \<Longrightarrow>
     posted (worker t) = [data] \<and> \<not> terminated (worker t) \<and> p = length st
     \<and> st' = st @ [Pending] \<and> resolver t = Some p \<and> rejector t = Some p"
  by (auto simp: Execute_begin_def Thread_post_def Thread_new_def new_promise_def)

lemma Execute_resume_value:
  "Execute_resume (Fulfilled v) t = Some (t', r) \<Longrightarrow> terminated (worker t') \<and> r = Inr v"
  by (auto simp: Execute_resume_def close_def)

text \<open>
  On a rejection the error reaches the caller and \<open>close\<close> is not called: the thread
  is as it was when the request was posted.
\<close>

lemma Execute_resume_error:
  "Execute_resume (Rejected e) t = Some (t, Inl e)"
  by (simp add: Execute_resume_def)

text \<open>
  C8 at a worker that fails the request: the call sends the one message and hands the
  error to its caller, and the thread is left unterminated.
\<close>

theorem Execute_error_leaves_thread_open:
  "map_option (\<lambda>(t, r). (posted (worker t), terminated (worker t), r))
     (Execute ''w.js'' (7::nat) [WError (Error ''boom'') :: nat wevent])
   = Some ([7], False, Inl (Error ''boom''))"
  by (simp add: Execute_def Execute_begin_def Execute_resume_def Thread_post_def
      Thread_new_def new_promise_def on_event_def receiveMessage_def settle_def)

lemma Execute_value_closes_thread:
  "map_option (\<lambda>(t, r). (posted (worker t), terminated (worker t), r))
     (Execute ''w.js'' (7::nat) [Message (Val (9::nat))])
   = Some ([7], True, Inr (Val 9))"
  by (simp add: Execute_def Execute_begin_def Execute_resume_def Thread_post_def
      Thread_new_def new_promise_def on_event_def receiveMessage_def settle_def close_def)

section \<open>Parallel: the properties\<close>

text \<open>
  C10. The width the constructor stores: the count when the concurrency argument is
  falsy, the smaller of the two otherwise.
\<close>

theorem constructor_width:
  "concurrency (Parallel_new options) =
     (if \<not> truthy (opt_concurrency options) then opt_count options
      else min (opt_concurrency options) (opt_count options))"
  by (simp add: Parallel_new_def Let_def min_def)

theorem constructor_width_witness:
  "concurrency (Parallel_new \<lparr>opt_name = ''p'', opt_count = 10, opt_concurrency = 0\<rparr>) = 10
   \<and> concurrency (Parallel_new \<lparr>opt_name = ''p'', opt_count = 10, opt_concurrency = 3\<rparr>) = 3
   \<and> concurrency (Parallel_new \<lparr>opt_name = ''p'', opt_count = 2, opt_concurrency = 3\<rparr>) = 2"
  by (simp add: constructor_width truthy_def)

text \<open>Every step of a runner keeps the cursor and the claimed values in line.\<close>

lemma claimed_append: "claimed (xs @ ys) = claimed xs @ claimed ys"
  by (induction xs rule: claimed.induct) simp_all

lemma cursor_inv_new: "cursor_inv (Parallel_new options)"
  by (simp add: cursor_inv_def Parallel_new_def Let_def)

lemma cursor_inv_consume: "cursor_inv s \<Longrightarrow> cursor_inv (Parallel_consume s)"
  by (simp add: cursor_inv_def Parallel_consume_def Let_def claimed_append upto_rec2)

lemma cursor_inv_funpow: "cursor_inv s \<Longrightarrow> cursor_inv ((Parallel_consume ^^ n) s)"
  by (induction n) (simp_all add: cursor_inv_consume)

lemma cursor_inv_frame:
  "offsetCount s' = offsetCount s \<Longrightarrow> calls s' = calls s \<Longrightarrow> cursor_inv s \<Longrightarrow> cursor_inv s'"
  by (simp add: cursor_inv_def)

lemma cursor_inv_tail: "cursor_inv s \<Longrightarrow> cursor_inv (consume_tail s)"
  unfolding consume_tail_def Let_def
  by (auto intro!: cursor_inv_consume split: option.splits elim: cursor_inv_frame[rotated 2])

lemma cursor_inv_pstep: "cursor_inv s \<Longrightarrow> cursor_inv (pstep ev s)"
proof (cases ev)
  case Start
  then show "cursor_inv s \<Longrightarrow> ?thesis" by (simp add: start_def cursor_inv_funpow)
next
  case PauseCall
  then show "cursor_inv s \<Longrightarrow> ?thesis"
    by (auto simp: Parallel_pause_def pause_loop_def Let_def cursor_inv_def)
next
  case ResumeCall
  then show "cursor_inv s \<Longrightarrow> ?thesis"
    by (auto simp: Parallel_resume_def Let_def intro!: cursor_inv_funpow
        elim: cursor_inv_frame[rotated 2])
next
  case WaitFinishCall
  then show "cursor_inv s \<Longrightarrow> ?thesis" by (auto simp: waitFinish_def cursor_inv_def)
next
  case (HandlerOk i)
  then show "cursor_inv s \<Longrightarrow> ?thesis"
    by (auto simp: handler_ok_def split: phase.splits intro!: cursor_inv_tail
        elim: cursor_inv_frame[rotated 2])
next
  case (HandlerFail i)
  then show "cursor_inv s \<Longrightarrow> ?thesis"
    by (auto simp: handler_fail_def split: phase.splits intro!: cursor_inv_tail
        elim: cursor_inv_frame[rotated 2])
next
  case (TimerFired i)
  then show "cursor_inv s \<Longrightarrow> ?thesis"
    by (auto simp: timer_fired_def cursor_inv_def claimed_append split: phase.splits)
next
  case (PollTick j)
  then show "cursor_inv s \<Longrightarrow> ?thesis"
    by (auto simp: poll_tick_def pause_loop_def cursor_inv_def)
qed

lemma cursor_inv_prun: "cursor_inv s \<Longrightarrow> cursor_inv (prun evs s)"
  unfolding prun_def by (induction evs arbitrary: s) (simp_all add: cursor_inv_pstep)

lemma count_list_distinct: "distinct xs \<Longrightarrow> x \<in> set xs \<Longrightarrow> count_list xs x = 1"
  by (induction xs) auto

text \<open>
  C2. Whatever is called on a runner and whatever its handler does, the cursor values
  claimed by the \<open>consume\<close> calls are 1, 2, ... up to the cursor, in this order: no
  value is claimed twice and every value up to the cursor is claimed once. So once the
  cursor stands at the count, every value from 1 to the count has been claimed exactly
  once.
\<close>

theorem cursor_claimed_once:
  "let s = prun evs (Parallel_new options)
   in claimed (calls s) = [1..offsetCount s]
      \<and> distinct (claimed (calls s))
      \<and> (\<forall>k\<in>{1..offsetCount s}. count_list (claimed (calls s)) k = 1)
      \<and> (offsetCount s = count s \<longrightarrow>
           (\<forall>k\<in>{1..count s}. count_list (claimed (calls s)) k = 1))"
proof -
  define s where "s = prun evs (Parallel_new options)"
  have inv: "cursor_inv s"
    unfolding s_def by (rule cursor_inv_prun [OF cursor_inv_new])
  then have eq: "claimed (calls s) = [1..offsetCount s]"
    by (simp add: cursor_inv_def)
  then have d: "distinct (claimed (calls s))"
    by simp
  have once: "count_list (claimed (calls s)) k = 1" if "k \<in> {1..offsetCount s}" for k
    using that eq by (intro count_list_distinct [OF d]) simp
  then have "count_list (claimed (calls s)) k = 1"
    if "offsetCount s = count s" "k \<in> {1..count s}" for k
    using that by simp
  with eq d once show ?thesis
    unfolding s_def [symmetric] Let_def by blast
qed

theorem cursor_claimed_once_witness:
  "offsetCount (prun [Start, HandlerOk 0, HandlerOk 0, HandlerOk 0]
       (Parallel_new \<lparr>opt_name = ''p'', opt_count = 3, opt_concurrency = 2\<rparr>)) = 3
   \<and> count (prun [Start, HandlerOk 0, HandlerOk 0, HandlerOk 0]
       (Parallel_new \<lparr>opt_name = ''p'', opt_count = 3, opt_concurrency = 2\<rparr>)) = 3
   \<and> claimed (calls (prun [Start, HandlerOk 0, HandlerOk 0, HandlerOk 0]
       (Parallel_new \<lparr>opt_name = ''p'', opt_count = 3, opt_concurrency = 2\<rparr>))) = [1, 2, 3]
   \<and> count_list (claimed (calls (prun [Start, HandlerOk 0, HandlerOk 0, HandlerOk 0]
       (Parallel_new \<lparr>opt_name = ''p'', opt_count = 3, opt_concurrency = 2\<rparr>)))) 2 = 1"
proof -
  let ?s = "prun [Start, HandlerOk 0, HandlerOk 0, HandlerOk 0]
       (Parallel_new \<lparr>opt_name = ''p'', opt_count = 3, opt_concurrency = 2\<rparr>)"
  have a: "offsetCount ?s = 3" by code_simp
  have b: "count ?s = 3" by code_simp
  have c: "[1..3::int] = [1, 2, 3]" by code_simp
  from cursor_claimed_once [of "[Start, HandlerOk 0, HandlerOk 0, HandlerOk 0]"
      "\<lparr>opt_name = ''p'', opt_count = 3, opt_concurrency = 2\<rparr>"]
  have "claimed (calls ?s) = [1..offsetCount ?s]"
    and "offsetCount ?s = count ?s \<longrightarrow> (\<forall>k\<in>{1..count ?s}. count_list (claimed (calls ?s)) k = 1)"
    unfolding Let_def by blast+
  with a b c show ?thesis by simp
qed

text \<open>
  \<open>pause()\<close> takes its first branch in every state: it leaves the flag alone, starts no
  loop and returns a promise that is already resolved.
\<close>

lemma pause_leaves_flag:
  "paused (snd (Parallel_pause s)) = paused s
   \<and> pollers (snd (Parallel_pause s)) = pollers s
   \<and> futures (snd (Parallel_pause s)) ! fst (Parallel_pause s) = True"
  by (simp add: Parallel_pause_def this_pause_def)

text \<open>
  C4 at a runner of three units and width one, right after its start: one unit is in
  flight, and \<open>pause()\<close> returns a resolved promise and leaves the flag unset.
\<close>

theorem pause_while_processing:
  "processingCount (create ''p'' 3 1) = 1
   \<and> paused (snd (Parallel_pause (create ''p'' 3 1))) = False
   \<and> futures (snd (Parallel_pause (create ''p'' 3 1))) ! fst (Parallel_pause (create ''p'' 3 1)) = True
   \<and> processingCount (snd (Parallel_pause (create ''p'' 3 1))) = 1"
  by code_simp

text \<open>
  C5 at a runner of four units and width two: the first call for unit 1 fails, the other
  \<open>consume\<close> finishes unit 2 and claims unit 3 during the backoff, and the second call
  made for unit 1 passes 3. No second call passes 1.
\<close>

theorem retry_reads_moved_cursor:
  "calls (prun [HandlerFail 0, HandlerOk 1, TimerFired 0] (create ''p'' 4 2))
     = [FirstCall 1, FirstCall 2, FirstCall 3, RetryCall 1 3]"
  by code_simp

text \<open>
  With width one nothing moves the cursor during the backoff, and the second call passes
  the index of the first.
\<close>

lemma retry_alone_same_index:
  "calls (prun [HandlerFail 0, TimerFired 0, HandlerOk 0] (create ''p'' 4 1))
     = [FirstCall 1, RetryCall 1 1, FirstCall 2]"
  by code_simp

section \<open>Queue: the properties\<close>

subsection \<open>The dispatch loop\<close>

text \<open>
  What holds before \<open>_fillThreads\<close> and is kept by every \<open>_consume\<close> holds when the
  loop returns. In a paused pool with an available thread and a queued item the loop
  never returns; in an active pool it always does.
\<close>

lemma fillThreads_rule:
  assumes run: "fillThreads s = Some r"
    and init: "I s"
    and step: "\<And>s s'. I s \<Longrightarrow> Queue_consume s = Normal s' \<Longrightarrow> I s'"
    and raise: "\<And>s e s'. I s \<Longrightarrow> Queue_consume s = Raised e s' \<Longrightarrow> Q (Raised e s')"
    and final: "\<And>s. I s \<Longrightarrow> availableThread s = [] \<or> queue s = [] \<Longrightarrow> Q (Normal s)"
  shows "Q r"
proof -
  have "I s \<longrightarrow> Q r"
  proof (rule fillThreads.raw_induct [where P = "\<lambda>s r. I s \<longrightarrow> Q r", OF _ run])
    fix f s r
    assume IH: "\<And>x y. f x = Some y \<Longrightarrow> I x \<longrightarrow> Q y"
      and eq: "(if 0 < length (availableThread s) \<and> 0 < length (queue s)
                then case Queue_consume s of Normal s' \<Rightarrow> f s'
                     | Raised e s' \<Rightarrow> Some (Raised e s')
                else Some (Normal s)) = Some r"
    show "I s \<longrightarrow> Q r"
    proof (cases "0 < length (availableThread s) \<and> 0 < length (queue s)")
      case True
      show ?thesis
      proof (cases "Queue_consume s")
        case (Normal s')
        with True eq have "f s' = Some r" by simp
        from IH [OF this] step [OF _ Normal] show ?thesis by blast
      next
        case (Raised e s')
        with True eq have "r = Raised e s'" by simp
        with raise [OF _ Raised] show ?thesis by blast
      qed
    next
      case False
      with eq have "r = Normal s" by auto
      with final [of s] False show ?thesis by auto
    qed
  qed
  with init show ?thesis by blast
qed

lemma consume_paused: "\<not> active s \<Longrightarrow> Queue_consume s = Normal s"
  by (simp add: Queue_consume_def)

lemma fillThreads_diverges:
  assumes "\<not> active s" "availableThread s \<noteq> []" "queue s \<noteq> []"
  shows "fillThreads s = None"
proof (rule ccontr)
  assume "fillThreads s \<noteq> None"
  then obtain r where r: "fillThreads s = Some r" by blast
  have "\<not> (\<not> active s \<and> availableThread s \<noteq> [] \<and> queue s \<noteq> [])"
  proof (rule fillThreads.raw_induct
      [where P = "\<lambda>s r. \<not> (\<not> active s \<and> availableThread s \<noteq> [] \<and> queue s \<noteq> [])", OF _ r])
    fix f s r
    assume IH: "\<And>x y. f x = Some y \<Longrightarrow>
                 \<not> (\<not> active x \<and> availableThread x \<noteq> [] \<and> queue x \<noteq> [])"
      and eq: "(if 0 < length (availableThread s) \<and> 0 < length (queue s)
                then case Queue_consume s of Normal s' \<Rightarrow> f s'
                     | Raised e s' \<Rightarrow> Some (Raised e s')
                else Some (Normal s)) = Some (r :: ('a, 'b) queue_state outcome)"
    show "\<not> (\<not> active s \<and> availableThread s \<noteq> [] \<and> queue s \<noteq> [])"
    proof
      assume a: "\<not> active s \<and> availableThread s \<noteq> [] \<and> queue s \<noteq> []"
      then have "Queue_consume s = Normal s" by (simp add: consume_paused)
      with a eq have "f s = Some r" by simp
      from IH [OF this] a show False by blast
    qed
  qed
  with assms show False by blast
qed

lemma consume_queue_shrinks:
  "active s \<Longrightarrow> availableThread s \<noteq> [] \<Longrightarrow> queue s \<noteq> [] \<Longrightarrow> Queue_consume s = Normal s'
    \<Longrightarrow> length (queue s') < length (queue s) \<and> active s'"
  by (auto simp: Queue_consume_def Let_def split: if_splits prod.splits)

lemma fillThreads_returns:
  "active s \<Longrightarrow> \<exists>r. fillThreads s = Some r"
proof (induction "length (queue s)" arbitrary: s rule: less_induct)
  case less
  show ?case
  proof (cases "0 < length (availableThread s) \<and> 0 < length (queue s)")
    case True
    show ?thesis
    proof (cases "Queue_consume s")
      case (Normal s')
      with True less.prems consume_queue_shrinks [of s s']
      have "length (queue s') < length (queue s)" "active s'" by auto
      from less.hyps [OF this] obtain r where "fillThreads s' = Some r" by blast
      with True Normal show ?thesis by (subst fillThreads.simps) simp
    next
      case (Raised e s')
      with True show ?thesis by (subst fillThreads.simps) simp
    qed
  next
    case False
    then show ?thesis by (subst fillThreads.simps) auto
  qed
qed

lemma fillThreads_idle:
  "availableThread s = [] \<or> queue s = [] \<Longrightarrow> fillThreads s = Some (Normal s)"
  by (subst fillThreads.simps) auto


subsection \<open>Accounting for the indices\<close>

text \<open>
  As long as the handler does not throw, an index leaves the available list only into a
  posted request and comes back once from its callbacks, and \<open>initialize\<close> adds the
  indices below the width.
\<close>

lemma consume_balanced:
  assumes "balanced M n C s" "\<forall>i\<in>#M. i < n"
  shows "\<exists>s'. Queue_consume s = Normal s' \<and> balanced M n C s'"
proof (cases "\<not> active s \<or> length (availableThread s) = 0 \<or> length (queue s) = 0")
  case True
  with assms show ?thesis by (simp add: Queue_consume_def)
next
  case False
  then obtain i as where av: "availableThread s = i # as" by (cases "availableThread s") auto
  with assms have "i < length (pool s)" by (auto simp: balanced_def)
  with False av assms(1) show ?thesis
    by (auto simp: Queue_consume_def Let_def Thread_post_def new_promise_def balanced_def)
qed

lemma fillThreads_balanced:
  assumes "fillThreads s = Some r" "balanced M n C s" "\<forall>i\<in>#M. i < n"
  shows "\<exists>s'. r = Normal s' \<and> balanced M n C s'"
proof (rule fillThreads_rule [OF assms(1), where I = "balanced M n C"])
  show "balanced M n C s" by fact
next
  fix s s' :: "('a, 'b) queue_state"
  assume "balanced M n C s" "Queue_consume s = Normal s'"
  with consume_balanced [OF _ assms(3), of C s] show "balanced M n C s'" by auto
next
  fix s s' :: "('a, 'b) queue_state" and e
  assume "balanced M n C s" "Queue_consume s = Raised e s'"
  with consume_balanced [OF _ assms(3), of C s]
  show "\<exists>s''. Raised e s' = Normal s'' \<and> balanced M n C s''" by auto
next
  fix s :: "('a, 'b) queue_state"
  assume "balanced M n C s"
  then show "\<exists>s'. Normal s = Normal s' \<and> balanced M n C s'" by simp
qed

lemma resolve_balanced:
  assumes "Queue_resolve idx err response None s = Some r"
    and "balanced M' n C s" "M = M' + {#idx#}" "\<forall>i\<in>#M. i < n"
  shows "\<exists>s'. r = Normal s' \<and> balanced M n C s'"
proof -
  define s2 where "s2 = (let s1 = s\<lparr>availableThread := availableThread s @ [idx]\<rparr>
      in if has_handler s1 then s1\<lparr>handled := handled s1 @ [(err, response)]\<rparr> else s1)"
  have b2: "balanced M n C s2"
    using assms(2,3) by (simp add: s2_def balanced_def Let_def)
  from assms(1) obtain r2 where f: "fillThreads s2 = Some r2"
    by (auto simp: Queue_resolve_def s2_def Let_def split: option.splits)
  from fillThreads_balanced [OF f b2 assms(4)] obtain s3 where
    s3: "r2 = Normal s3" "balanced M n C s3" by blast
  with assms(1) f show ?thesis
    by (auto simp: Queue_resolve_def s2_def Let_def balanced_def split: if_splits)
qed

lemma mset_drop_nth:
  "k < length xs \<Longrightarrow> mset (map f (drop_nth k xs)) + {#f (xs ! k)#} = mset (map f xs)"
proof -
  assume "k < length xs"
  then have "xs = take k xs @ xs ! k # drop (Suc k) xs" by (rule id_take_nth_drop)
  then have "mset (map f xs) = mset (map f (take k xs @ xs ! k # drop (Suc k) xs))" by simp
  then show ?thesis by (simp add: drop_nth_def)
qed

lemma react_balanced:
  assumes "react k None None s = Some s'" "balanced M n C s" "\<forall>i\<in>#M. i < n"
  shows "balanced M n C s'"
proof (cases "k < length (reactions s) \<and> snd (reactions s ! k) < length (store s)")
  case False
  with assms show ?thesis by (auto simp: react_def)
next
  case True
  define s0 where "s0 = s\<lparr>reactions := drop_nth k (reactions s)\<rparr>"
  define idx where "idx = fst (reactions s ! k)"
  from True have dr: "mset (map fst (drop_nth k (reactions s))) + {#idx#} = mset (map fst (reactions s))"
    unfolding idx_def by (intro mset_drop_nth) simp
  define M' where "M' = mset (availableThread s) + mset (map fst (drop_nth k (reactions s)))"
  have b0: "balanced M' n C s0"
    using assms(2) by (simp add: balanced_def s0_def M'_def)
  have "M' + {#idx#} = mset (availableThread s) + mset (map fst (reactions s))"
    unfolding M'_def dr [symmetric] by simp
  with assms(2) have M: "M = M' + {#idx#}"
    by (simp add: balanced_def)
  show ?thesis
  proof (cases "store s ! snd (reactions s ! k)")
    case Pending
    with True assms show ?thesis by (auto simp: react_def Let_def)
  next
    case (Fulfilled v)
    with True assms(1) obtain r where r: "Queue_resolve idx None v None s0 = Some r"
      by (auto simp: react_def Let_def s0_def idx_def split: option.splits)
    from resolve_balanced [OF r b0 M assms(3)] obtain s1 where "r = Normal s1" "balanced M n C s1"
      by blast
    with True assms(1) Fulfilled r show ?thesis
      by (auto simp: react_def Let_def s0_def idx_def)
  next
    case (Rejected e)
    with True assms(1) obtain r where r: "Queue_resolve idx (Some e) Null None s0 = Some r"
      by (auto simp: react_def Let_def s0_def idx_def split: option.splits)
    from resolve_balanced [OF r b0 M assms(3)] obtain s1 where "r = Normal s1" "balanced M n C s1"
      by blast
    with True assms(1) Rejected r show ?thesis
      by (auto simp: react_def Let_def s0_def idx_def)
  qed
qed

lemma foldl_spawn:
  "concurrence (foldl spawn s xs) = concurrence s
   \<and> length (pool (foldl spawn s xs)) = length (pool s) + length xs
   \<and> availableThread (foldl spawn s xs) = availableThread s @ xs
   \<and> reactions (foldl spawn s xs) = reactions s
   \<and> active (foldl spawn s xs) = active s
   \<and> queue (foldl spawn s xs) = queue s
   \<and> store (foldl spawn s xs) = store s"
  by (induction xs arbitrary: s) (simp_all add: spawn_def)

lemma initialize_balanced:
  assumes "initialize s = Some r" "balanced M n C s" "\<forall>i\<in>#M. i < n"
  shows "\<exists>s'. r = Normal s' \<and> balanced (M + mset [0..<C]) (n + C) C s'"
proof -
  let ?s1 = "foldl spawn (s\<lparr>active := True\<rparr>) [0..<concurrence s]"
  have b: "balanced (M + mset [0..<C]) (n + C) C ?s1"
    using assms(2) by (simp add: balanced_def foldl_spawn)
  have r: "\<forall>i\<in>#M + mset [0..<C]. i < n + C"
    using assms(3) by auto
  from assms(1) have "fillThreads ?s1 = Some r" by (simp add: initialize_def)
  from fillThreads_balanced [OF this b r] show ?thesis .
qed

lemma resume_balanced:
  assumes "Queue_resume s = Some r" "balanced M n C s" "\<forall>i\<in>#M. i < n"
  shows "\<exists>s'. r = Normal s' \<and> balanced M n C s'"
proof -
  have b: "balanced M n C (s\<lparr>active := True\<rparr>)"
    using assms(2) by (simp add: balanced_def)
  from assms(1) have "fillThreads (s\<lparr>active := True\<rparr>) = Some r" by (simp add: Queue_resume_def)
  from fillThreads_balanced [OF this b assms(3)] show ?thesis .
qed

lemma stop_loop_balanced: "balanced M n C s \<Longrightarrow> balanced M n C (after_stop_loop (stop_loop s))"
  by (simp add: balanced_def after_stop_loop_def stop_loop_def)

lemma post_unfold:
  "post its once s =
     (let p = length (store s);
          s1 = s\<lparr>store := store s @ [Pending],
                  queue := queue s @ items_of its\<rparr>
      in case (if availableThread s \<noteq> [] then fillThreads s1 else Some (Normal s1)) of
           None \<Rightarrow> None
         | Some (Raised e s2) \<Rightarrow> Some (p, s2\<lparr>store := settle p (Rejected e) (store s2)\<rparr>)
         | Some (Normal s2) \<Rightarrow>
             Some (p, if once then s2\<lparr>onceResolver := Some p\<rparr>
                      else s2\<lparr>store := settle p (Fulfilled Undefined) (store s2)\<rparr>))"
  by (simp add: post_def new_promise_def Let_def)

lemma post_balanced:
  assumes "post its once s = Some (p, s')" "balanced M n C s" "\<forall>i\<in>#M. i < n"
  shows "balanced M n C s'"
proof -
  define s1 where "s1 = s\<lparr>store := store s @ [Pending],
                    queue := queue s @ items_of its\<rparr>"
  have b: "balanced M n C s1"
    using assms(2) by (simp add: balanced_def s1_def)
  define r where "r = (if availableThread s \<noteq> [] then fillThreads s1 else Some (Normal s1))"
  from assms(1) obtain r' where r': "r = Some r'"
    unfolding post_unfold Let_def s1_def [symmetric] r_def [symmetric]
    by (cases r) auto
  have "\<exists>s2. r' = Normal s2 \<and> balanced M n C s2"
  proof (cases "availableThread s \<noteq> []")
    case True
    with r' have "fillThreads s1 = Some r'" by (simp add: r_def)
    from fillThreads_balanced [OF this b assms(3)] show ?thesis .
  next
    case False
    with r' b show ?thesis by (auto simp: r_def)
  qed
  then obtain s2 where s2: "r' = Normal s2" "balanced M n C s2" by blast
  from assms(1) have "s' = (if once then s2\<lparr>onceResolver := Some (length (store s))\<rparr>
      else s2\<lparr>store := settle (length (store s)) (Fulfilled Undefined) (store s2)\<rparr>)"
    unfolding post_unfold Let_def s1_def [symmetric] r_def [symmetric] r' s2(1) by auto
  with s2(2) show ?thesis by (simp add: balanced_def)
qed

lemma qstep_balanced:
  assumes "qstep ev s = Some s'" "balanced M n C s" "\<forall>i\<in>#M. i < n" "quiet ev"
  shows "balanced (M + (if ev = Initialize then mset [0..<C] else {#}))
           (n + (if ev = Initialize then C else 0)) C s'"
proof (cases ev)
  case Initialize
  with assms(1) obtain r where "initialize s = Some r" "s' = state_of r" by auto
  with initialize_balanced [OF _ assms(2,3)] Initialize show ?thesis by auto
next
  case Pause
  with assms show ?thesis by (auto simp: Queue_pause_def balanced_def)
next
  case Resume
  with assms(1) obtain r where "Queue_resume s = Some r" "s' = state_of r" by auto
  with resume_balanced [OF _ assms(2,3)] Resume show ?thesis by auto
next
  case Stop
  have "balanced M n C (s\<lparr>active := False\<rparr>)" using assms(2) by (simp add: balanced_def)
  from stop_loop_balanced [OF this] Stop assms(1) show ?thesis by (auto simp: stop_def)
next
  case StopWake
  have "balanced M n C (s\<lparr>stop_sleeping := stop_sleeping s - 1\<rparr>)"
    using assms(2) by (simp add: balanced_def)
  from stop_loop_balanced [OF this] StopWake assms(1,2) show ?thesis by (auto split: if_splits)
next
  case (Post its once)
  with assms(1) obtain p where "post its once s = Some (p, s')" by auto
  from post_balanced [OF this assms(2,3)] Post show ?thesis by simp
next
  case (Worker i wev)
  with assms show ?thesis by (auto simp: worker_event_def balanced_def)
next
  case (React k h1 h2)
  with assms(1,4) have "react k None None s = Some s'" by simp
  from react_balanced [OF this assms(2,3)] React show ?thesis by simp
qed

lemma qrun_balanced:
  assumes "qrun evs s = Some s'" "balanced M n C s" "\<forall>i\<in>#M. i < n" "list_all quiet evs"
  shows "balanced (M + repeat_mset (inits evs) (mset [0..<C])) (n + inits evs * C) C s'"
  using assms
proof (induction evs arbitrary: s M n)
  case Nil
  then show ?case by (simp add: inits_def)
next
  case (Cons ev evs)
  from Cons.prems(1) obtain s1 where s1: "qstep ev s = Some s1" "qrun evs s1 = Some s'"
    by (auto split: option.splits)
  let ?M = "M + (if ev = Initialize then mset [0..<C] else {#})"
  let ?n = "n + (if ev = Initialize then C else 0)"
  from Cons.prems have b1: "balanced ?M ?n C s1"
    by (intro qstep_balanced [OF s1(1)]) simp_all
  have r1: "\<forall>i\<in>#?M. i < ?n" using Cons.prems(3) by auto
  from Cons.prems(4) have "list_all quiet evs" by simp
  from Cons.IH [OF s1(2) b1 r1 this] show ?case
    by (auto simp: inits_def ac_simps)
qed

lemma reachable_balanced:
  assumes "qrun evs (Queue_new scr C h) = Some s" "list_all quiet evs"
  shows "balanced (repeat_mset (inits evs) (mset [0..<C])) (inits evs * C) C s"
proof -
  have "balanced {#} 0 C (Queue_new scr C h :: ('a, 'b) queue_state)"
    by (simp add: balanced_def Queue_new_def)
  from qrun_balanced [OF assms(1) this _ assms(2)] show ?thesis by simp
qed

lemma busy_distinct:
  assumes "mset a + mset b = mset [0..<C]"
  shows "length (filter (\<lambda>i. i \<in> set b) [0..<C]) = length b"
proof -
  from assms have m: "mset (a @ b) = mset [0..<C]" by simp
  then have "distinct (a @ b)" using mset_eq_imp_distinct_iff [OF m] by simp
  then have d: "distinct b" by simp
  from m have "set (a @ b) = set [0..<C]" by (rule mset_eq_setD)
  then have sub: "set b \<subseteq> {0..<C}" by auto
  have "length (filter (\<lambda>i. i \<in> set b) [0..<C]) = card ({i. i \<in> set b} \<inter> set [0..<C])"
    by (rule distinct_length_filter) simp
  also have "{i. i \<in> set b} \<inter> set [0..<C] = set b" using sub by auto
  also have "card (set b) = length b" using d by (rule distinct_card)
  finally show ?thesis .
qed

lemma balanced_sum:
  assumes "balanced (repeat_mset k (mset [0..<C])) n C s"
  shows "length (availableThread s) + length (reactions s) = k * C"
proof -
  from assms have "size (mset (availableThread s) + mset (map fst (reactions s)))
      = size (repeat_mset k (mset [0..<C]))"
    by (simp add: balanced_def)
  then show ?thesis by simp
qed

lemma balanced_busy:
  assumes "balanced (mset [0..<C]) C C s"
  shows "busyCount s = length (reactions s)"
proof -
  from assms have "mset (availableThread s) + mset (map fst (reactions s)) = mset [0..<C]"
    and "length (pool s) = C"
    by (simp_all add: balanced_def)
  from busy_distinct [OF this(1)] this(2) show ?thesis
    by (simp add: busyCount_def)
qed

lemma stop_loop_idle:
  assumes "balanced (repeat_mset k (mset [0..<C])) n C s" and "k \<le> 1"
    and "length (availableThread s) = C"
  shows "reactions s = []"
proof -
  from balanced_sum [OF assms(1)] assms(3) have "C + length (reactions s) = k * C" by simp
  also from assms(2) have "k * C \<le> C" by (cases k) auto
  finally show ?thesis by simp
qed

lemma stop_loop_closes:
  "fst (stop_loop s) \<Longrightarrow> t \<in> set (pool (snd (stop_loop s))) \<Longrightarrow> terminated (worker t)"
  by (auto simp: stop_loop_def close_def split: if_splits)

lemma busyCount_idle: "reactions s = [] \<Longrightarrow> busyCount s = 0"
  by (simp add: busyCount_def)

subsection \<open>The indices stay inside the pool\<close>

text \<open>This holds in every run, whatever the handler does: \<open>_consume\<close> never throws.\<close>

lemma in_range_frame:
  "in_range n s \<Longrightarrow> length (pool s') = length (pool s)
    \<Longrightarrow> availableThread s' = availableThread s \<Longrightarrow> reactions s' = reactions s
    \<Longrightarrow> length (store s') = length (store s) \<Longrightarrow> in_range n s'"
  by (simp add: in_range_def)

lemma consume_in_range:
  assumes "in_range n s"
  shows "\<exists>s'. Queue_consume s = Normal s' \<and> in_range n s'"
proof (cases "\<not> active s \<or> length (availableThread s) = 0 \<or> length (queue s) = 0")
  case True
  with assms show ?thesis by (simp add: Queue_consume_def)
next
  case False
  then obtain i as where av: "availableThread s = i # as" by (cases "availableThread s") auto
  with assms have "i < length (pool s)" by (auto simp: in_range_def)
  with False av assms(1) show ?thesis
    by (auto simp: Queue_consume_def Let_def Thread_post_def new_promise_def in_range_def)
qed

lemma fillThreads_in_range:
  assumes "fillThreads s = Some r" "in_range n s"
  shows "\<exists>s'. r = Normal s' \<and> in_range n s'"
proof (rule fillThreads_rule [OF assms(1), where I = "in_range n"])
  show "in_range n s" by fact
next
  fix s s' :: "('a, 'b) queue_state"
  assume "in_range n s" "Queue_consume s = Normal s'"
  with consume_in_range [of n s] show "in_range n s'" by auto
next
  fix s s' :: "('a, 'b) queue_state" and e
  assume "in_range n s" "Queue_consume s = Raised e s'"
  with consume_in_range [of n s]
  show "\<exists>s''. Raised e s' = Normal s'' \<and> in_range n s''" by auto
next
  fix s :: "('a, 'b) queue_state"
  assume "in_range n s"
  then show "\<exists>s'. Normal s = Normal s' \<and> in_range n s'" by simp
qed

lemma resolve_in_range:
  assumes "Queue_resolve idx err response hthrow s = Some r" "in_range n s" "idx < n"
  shows "in_range n (state_of r)"
proof -
  define s2 where "s2 = (let s1 = s\<lparr>availableThread := availableThread s @ [idx]\<rparr>
      in if has_handler s1 then s1\<lparr>handled := handled s1 @ [(err, response)]\<rparr> else s1)"
  have b2: "in_range n s2"
    using assms(2,3) by (simp add: s2_def in_range_def Let_def)
  show ?thesis
  proof (cases "has_handler s \<and> hthrow \<noteq> None")
    case True
    with assms(1) have "r = Raised (the hthrow) s2"
      by (auto simp: Queue_resolve_def s2_def Let_def)
    with b2 show ?thesis by simp
  next
    case False
    with assms(1) obtain r2 where f: "fillThreads s2 = Some r2"
      by (auto simp: Queue_resolve_def s2_def Let_def split: option.splits)
    from fillThreads_in_range [OF f b2] obtain s3 where
      s3: "r2 = Normal s3" "in_range n s3" by blast
    with assms(1) f False
    have "state_of r = s3
        \<or> state_of r = s3\<lparr>store := settle (the (onceResolver s3)) (Fulfilled Undefined) (store s3)\<rparr>"
      by (auto simp: Queue_resolve_def s2_def Let_def split: if_splits)
    with s3(2) show ?thesis
      by (auto elim: in_range_frame)
  qed
qed

lemma set_drop_nth: "set (drop_nth k xs) \<subseteq> set xs"
  by (auto simp: drop_nth_def dest: in_set_takeD in_set_dropD)

lemma in_range_unhandled: "in_range n s \<Longrightarrow> in_range n (s\<lparr>unhandled := u\<rparr>)"
  by (simp add: in_range_def)

lemma react_in_range:
  assumes "react k h1 h2 s = Some s'" "in_range n s"
  shows "in_range n s'"
proof (cases "k < length (reactions s) \<and> snd (reactions s ! k) < length (store s)")
  case False
  with assms show ?thesis by (auto simp: react_def)
next
  case True
  define s0 where "s0 = s\<lparr>reactions := drop_nth k (reactions s)\<rparr>"
  define idx where "idx = fst (reactions s ! k)"
  from True assms(2) have idx: "idx < n"
    by (auto simp: in_range_def idx_def)
  have b0: "in_range n s0"
    using assms(2) set_drop_nth [of k "reactions s"] by (auto simp: in_range_def s0_def)
  show ?thesis
  proof (cases "store s ! snd (reactions s ! k)")
    case Pending
    with True assms show ?thesis by (auto simp: react_def Let_def)
  next
    case (Fulfilled v)
    with True assms(1) obtain r where r: "Queue_resolve idx None v h1 s0 = Some r"
      by (auto simp: react_def Let_def s0_def idx_def split: option.splits)
    from resolve_in_range [OF r b0 idx] have r1: "in_range n (state_of r)" .
    show ?thesis
    proof (cases r)
      case (Normal s1)
      with True assms(1) Fulfilled r r1 show ?thesis
        by (auto simp: react_def Let_def s0_def idx_def)
    next
      case (Raised e s1)
      with True assms(1) Fulfilled r obtain r' where r': "Queue_resolve idx (Some e) Null h2 s1 = Some r'"
        by (auto simp: react_def Let_def s0_def idx_def split: option.splits)
      from Raised r1 have "in_range n s1" by simp
      from resolve_in_range [OF r' this idx] have "in_range n (state_of r')" .
      with True assms(1) Fulfilled r Raised r' show ?thesis
        by (cases r') (auto simp: react_def Let_def s0_def idx_def in_range_unhandled)
    qed
  next
    case (Rejected e)
    with True assms(1) obtain r where r: "Queue_resolve idx (Some e) Null h1 s0 = Some r"
      by (auto simp: react_def Let_def s0_def idx_def split: option.splits)
    from resolve_in_range [OF r b0 idx] have "in_range n (state_of r)" .
    with True assms(1) Rejected r show ?thesis
      by (cases r) (auto simp: react_def Let_def s0_def idx_def in_range_unhandled)
  qed
qed

lemma initialize_in_range:
  assumes "initialize s = Some r" "in_range n s"
  shows "in_range (n + concurrence s) (state_of r)"
proof -
  let ?s1 = "foldl spawn (s\<lparr>active := True\<rparr>) [0..<concurrence s]"
  have b: "in_range (n + concurrence s) ?s1"
    using assms(2) by (auto simp: in_range_def foldl_spawn)
  from assms(1) have "fillThreads ?s1 = Some r" by (simp add: initialize_def)
  from fillThreads_in_range [OF this b] show ?thesis by auto
qed

lemma resume_in_range:
  assumes "Queue_resume s = Some r" "in_range n s"
  shows "in_range n (state_of r)"
proof -
  have b: "in_range n (s\<lparr>active := True\<rparr>)"
    using assms(2) by (simp add: in_range_def)
  from assms(1) have "fillThreads (s\<lparr>active := True\<rparr>) = Some r" by (simp add: Queue_resume_def)
  from fillThreads_in_range [OF this b] show ?thesis by auto
qed

lemma stop_loop_in_range: "in_range n s \<Longrightarrow> in_range n (after_stop_loop (stop_loop s))"
  by (simp add: in_range_def after_stop_loop_def stop_loop_def)

lemma post_in_range:
  assumes "post its once s = Some (p, s')" "in_range n s"
  shows "in_range n s'"
proof -
  define s1 where "s1 = s\<lparr>store := store s @ [Pending], queue := queue s @ items_of its\<rparr>"
  have b: "in_range n s1"
    using assms(2) by (auto simp: in_range_def s1_def intro: less_SucI)
  define r where "r = (if availableThread s \<noteq> [] then fillThreads s1 else Some (Normal s1))"
  from assms(1) obtain r' where r': "r = Some r'"
    unfolding post_unfold Let_def s1_def [symmetric] r_def [symmetric]
    by (cases r) auto
  have "\<exists>s2. r' = Normal s2 \<and> in_range n s2"
  proof (cases "availableThread s \<noteq> []")
    case True
    with r' have "fillThreads s1 = Some r'" by (simp add: r_def)
    from fillThreads_in_range [OF this b] show ?thesis .
  next
    case False
    with r' b show ?thesis by (auto simp: r_def)
  qed
  then obtain s2 where s2: "r' = Normal s2" "in_range n s2" by blast
  from assms(1) have "s' = (if once then s2\<lparr>onceResolver := Some (length (store s))\<rparr>
      else s2\<lparr>store := settle (length (store s)) (Fulfilled Undefined) (store s2)\<rparr>)"
    unfolding post_unfold Let_def s1_def [symmetric] r_def [symmetric] r' s2(1) by auto
  with s2(2) show ?thesis by (simp add: in_range_def)
qed

lemma qstep_in_range:
  assumes "qstep ev s = Some s'" "in_range n s"
  shows "\<exists>n'. in_range n' s'"
proof (cases ev)
  case Initialize
  with assms(1) obtain r where "initialize s = Some r" "s' = state_of r" by auto
  with initialize_in_range [OF _ assms(2)] show ?thesis by auto
next
  case Pause
  with assms(1) have "s' = s\<lparr>active := False\<rparr>" by (simp add: Queue_pause_def)
  with in_range_frame [OF assms(2), of s'] show ?thesis by auto
next
  case Resume
  with assms(1) obtain r where "Queue_resume s = Some r" "s' = state_of r" by auto
  with resume_in_range [OF _ assms(2)] show ?thesis by auto
next
  case Stop
  have "in_range n (s\<lparr>active := False\<rparr>)" using assms(2) by (simp add: in_range_def)
  from stop_loop_in_range [OF this] Stop assms(1) show ?thesis by (auto simp: stop_def)
next
  case StopWake
  have "in_range n (s\<lparr>stop_sleeping := stop_sleeping s - 1\<rparr>)"
    using assms(2) by (simp add: in_range_def)
  from stop_loop_in_range [OF this] StopWake assms(1,2) show ?thesis by (auto split: if_splits)
next
  case (Post its once)
  with assms(1) obtain p where "post its once s = Some (p, s')" by auto
  from post_in_range [OF this assms(2)] show ?thesis by blast
next
  case (Worker i wev)
  with assms(1) have "s' = worker_event i wev s" by simp
  with in_range_frame [OF assms(2), of s'] show ?thesis by (auto simp: worker_event_def)
next
  case (React k h1 h2)
  with assms(1) have "react k h1 h2 s = Some s'" by simp
  from react_in_range [OF this assms(2)] show ?thesis by blast
qed

lemma qrun_in_range:
  "qrun evs s = Some s' \<Longrightarrow> in_range n s \<Longrightarrow> \<exists>n'. in_range n' s'"
proof (induction evs arbitrary: s n)
  case Nil
  then show ?case by auto
next
  case (Cons ev evs)
  from Cons.prems(1) obtain s1 where s1: "qstep ev s = Some s1" "qrun evs s1 = Some s'"
    by (auto split: option.splits)
  from qstep_in_range [OF s1(1) Cons.prems(2)] obtain n1 where "in_range n1 s1" by blast
  from Cons.IH [OF s1(2) this] show ?case .
qed

lemma reachable_in_range:
  assumes "qrun evs (Queue_new scr C h) = Some s"
  shows "\<exists>n. in_range n s"
proof -
  have "in_range 0 (Queue_new scr C h :: ('a, 'b) queue_state)"
    by (simp add: in_range_def Queue_new_def)
  from qrun_in_range [OF assms this] show ?thesis .
qed

subsection \<open>The backlog and the promises\<close>

lemma extends_refl: "extends s s"
  by (auto simp: extends_def intro: exI [of _ 0])

lemma extends_trans: "extends a b \<Longrightarrow> extends b c \<Longrightarrow> extends a c"
  by (auto simp: extends_def)

lemma consume_extends: "Queue_consume s = Normal s' \<Longrightarrow> extends s s'"
proof (cases "\<not> active s \<or> length (availableThread s) = 0 \<or> length (queue s) = 0")
  case True
  assume "Queue_consume s = Normal s'"
  with True show ?thesis by (auto simp: Queue_consume_def extends_refl)
next
  case False
  assume c: "Queue_consume s = Normal s'"
  from False have "queue s \<noteq> []" by auto
  then have "tl (queue s) = drop 1 (queue s)" by (simp add: drop_Suc)
  with False c show ?thesis
    by (auto simp: Queue_consume_def Let_def Thread_post_def new_promise_def extends_def
        split: if_splits)
qed

lemma fillThreads_extends:
  assumes "fillThreads s = Some r"
  shows "\<forall>s'. r = Normal s' \<longrightarrow> extends s s'"
proof (rule fillThreads_rule [OF assms, where I = "extends s"])
  show "extends s s" by (rule extends_refl)
next
  fix a b :: "('a, 'b) queue_state"
  assume "extends s a" "Queue_consume a = Normal b"
  then show "extends s b" by (blast intro: extends_trans consume_extends)
next
  fix a b :: "('a, 'b) queue_state" and e
  show "\<forall>s'. Raised e b = Normal s' \<longrightarrow> extends s s'" by simp
next
  fix a :: "('a, 'b) queue_state"
  assume "extends s a"
  then show "\<forall>s'. Normal a = Normal s' \<longrightarrow> extends s s'" by simp
qed

lemma post_hangs:
  assumes "\<not> active s" "availableThread s \<noteq> []" "queue s @ items_of its \<noteq> []"
  shows "post its once s = None"
proof -
  let ?s1 = "s\<lparr>store := store s @ [Pending], queue := queue s @ items_of its\<rparr>"
  from assms have "fillThreads ?s1 = None" by (intro fillThreads_diverges) simp_all
  with assms(2) show ?thesis by (simp add: post_unfold)
qed

lemma post_returns:
  assumes "in_range n s" and "active s \<or> availableThread s = [] \<or> queue s @ items_of its = []"
  shows "\<exists>s'. post its once s = Some (length (store s), s')
            \<and> (\<exists>m. queue s' = drop m (queue s @ items_of its))
            \<and> store s' ! length (store s) = (if once then Pending else Fulfilled Undefined)
            \<and> (once \<longrightarrow> onceResolver s' = Some (length (store s)))"
proof -
  define s1 where "s1 = s\<lparr>store := store s @ [Pending], queue := queue s @ items_of its\<rparr>"
  have b: "in_range n s1"
    using assms(1) by (auto simp: in_range_def s1_def intro: less_SucI)
  define r where "r = (if availableThread s \<noteq> [] then fillThreads s1 else Some (Normal s1))"
  have "\<exists>s2. r = Some (Normal s2) \<and> extends s1 s2"
  proof (cases "availableThread s \<noteq> []")
    case False
    then show ?thesis by (simp add: r_def extends_refl)
  next
    case True
    with assms(2) have "active s1 \<or> queue s1 = []" by (auto simp: s1_def)
    then obtain r' where r': "fillThreads s1 = Some r'"
      using fillThreads_returns [of s1] fillThreads_idle [of s1] by blast
    from fillThreads_in_range [OF r' b] obtain s2 where "r' = Normal s2" by blast
    with fillThreads_extends [OF r'] r' True show ?thesis by (simp add: r_def)
  qed
  then obtain s2 where s2: "r = Some (Normal s2)" "extends s1 s2" by blast
  define s' where "s' = (if once then s2\<lparr>onceResolver := Some (length (store s))\<rparr>
      else s2\<lparr>store := settle (length (store s)) (Fulfilled Undefined) (store s2)\<rparr>)"
  have p: "post its once s = Some (length (store s), s')"
    unfolding post_unfold Let_def s1_def [symmetric] r_def [symmetric] s2(1) s'_def by simp
  from s2(2) obtain m zs where e: "queue s2 = drop m (queue s @ items_of its)"
      "store s2 = store s @ [Pending] @ zs"
    by (auto simp: extends_def s1_def)
  from e(2) have st: "length (store s) < length (store s2)" "store s2 ! length (store s) = Pending"
    by (simp_all add: nth_append)
  from e(1) have "\<exists>m. queue s' = drop m (queue s @ items_of its)"
    by (auto simp: s'_def)
  moreover from st have "store s' ! length (store s) = (if once then Pending else Fulfilled Undefined)"
    by (simp add: s'_def settle_pending)
  moreover have "once \<longrightarrow> onceResolver s' = Some (length (store s))"
    by (simp add: s'_def)
  ultimately show ?thesis using p by blast
qed

lemma resolve_once:
  assumes "Queue_resolve idx err response hthrow s = Some (Normal s')"
    and "onceResolver s = Some p" "p < length (store s)" "store s ! p = Pending"
  shows "store s' ! p = (if queue s' = [] then Fulfilled Undefined else Pending)"
proof -
  define s2 where "s2 = (let s1 = s\<lparr>availableThread := availableThread s @ [idx]\<rparr>
      in if has_handler s1 then s1\<lparr>handled := handled s1 @ [(err, response)]\<rparr> else s1)"
  have eq: "Queue_resolve idx err response hthrow s =
      (if has_handler s \<and> hthrow \<noteq> None then Some (Raised (the hthrow) s2)
       else case fillThreads s2 of
              None \<Rightarrow> None
            | Some (Raised e s3) \<Rightarrow> Some (Raised e s3)
            | Some (Normal s3) \<Rightarrow>
                Some (Normal
                  (if onceResolver s3 \<noteq> None \<and> length (queue s3) = 0 then
                     s3\<lparr>store := settle (the (onceResolver s3)) (Fulfilled Undefined) (store s3)\<rparr>
                   else s3)))"
    by (auto simp: Queue_resolve_def s2_def Let_def)
  from assms(1) have nt: "\<not> (has_handler s \<and> hthrow \<noteq> None)"
    unfolding eq by (auto split: if_splits)
  from assms(1) nt obtain r3 where r3: "fillThreads s2 = Some r3"
    unfolding eq by (cases "fillThreads s2") auto
  from assms(1) nt r3 obtain s3 where f: "fillThreads s2 = Some (Normal s3)"
    unfolding eq by (cases r3) auto
  from assms(1) nt f
  have s': "s' = (if onceResolver s3 \<noteq> None \<and> length (queue s3) = 0 then
                     s3\<lparr>store := settle (the (onceResolver s3)) (Fulfilled Undefined) (store s3)\<rparr>
                   else s3)"
    unfolding eq by (auto split: if_splits)
  from fillThreads_extends [OF f] have "extends s2 s3" by simp
  then obtain zs where "store s3 = store s @ zs" "onceResolver s3 = Some p"
    using assms(2) by (auto simp: extends_def s2_def Let_def)
  with assms(3,4) have "p < length (store s3)" "store s3 ! p = Pending" "onceResolver s3 = Some p"
    by (simp_all add: nth_append)
  then show ?thesis
    by (simp add: s' settle_pending)
qed

text \<open>
  A \<open>_resolve\<close> whose handler call does not throw returns when the pool is active or
  the backlog is empty, and never returns in a paused pool with a queued item; so do the
  callbacks of a settled request.
\<close>

lemma resolve_unfold:
  "Queue_resolve idx err response hthrow s =
     (let s2 = (if has_handler s
                then s\<lparr>availableThread := availableThread s @ [idx],
                       handled := handled s @ [(err, response)]\<rparr>
                else s\<lparr>availableThread := availableThread s @ [idx]\<rparr>)
      in if has_handler s \<and> hthrow \<noteq> None then Some (Raised (the hthrow) s2)
         else case fillThreads s2 of
                None \<Rightarrow> None
              | Some (Raised e s3) \<Rightarrow> Some (Raised e s3)
              | Some (Normal s3) \<Rightarrow>
                  Some (Normal
                    (if onceResolver s3 \<noteq> None \<and> length (queue s3) = 0 then
                       s3\<lparr>store := settle (the (onceResolver s3)) (Fulfilled Undefined) (store s3)\<rparr>
                     else s3)))"
  by (auto simp: Queue_resolve_def Let_def)

lemma resolve_hangs:
  assumes "\<not> active s" "queue s \<noteq> []" "has_handler s \<longrightarrow> hthrow = None"
  shows "Queue_resolve idx err response hthrow s = None"
proof -
  let ?s2 = "if has_handler s
             then s\<lparr>availableThread := availableThread s @ [idx],
                    handled := handled s @ [(err, response)]\<rparr>
             else s\<lparr>availableThread := availableThread s @ [idx]\<rparr>"
  from assms(1,2) have "fillThreads ?s2 = None"
    by (intro fillThreads_diverges) simp_all
  with assms(3) show ?thesis
    unfolding resolve_unfold Let_def by auto
qed

lemma resolve_returns:
  assumes "in_range n s" "idx < n" "has_handler s \<longrightarrow> hthrow = None" "active s \<or> queue s = []"
  shows "\<exists>s'. Queue_resolve idx err response hthrow s = Some (Normal s')"
proof -
  define s2 where "s2 = (if has_handler s
             then s\<lparr>availableThread := availableThread s @ [idx],
                    handled := handled s @ [(err, response)]\<rparr>
             else s\<lparr>availableThread := availableThread s @ [idx]\<rparr>)"
  have b: "in_range n s2"
    using assms(1,2) by (auto simp: s2_def in_range_def)
  from assms(4) have "active s2 \<or> queue s2 = []" by (auto simp: s2_def)
  then obtain r where r: "fillThreads s2 = Some r"
    using fillThreads_returns [of s2] fillThreads_idle [of s2] by blast
  from fillThreads_in_range [OF r b] obtain s3 where "r = Normal s3" by blast
  with r assms(3) show ?thesis
    unfolding resolve_unfold Let_def s2_def [symmetric] by auto
qed

lemma react_resolves:
  assumes "in_range n s" and "k < length (reactions s)"
    and "store s ! snd (reactions s ! k) \<noteq> Pending"
    and "active s \<or> queue s = []"
    and "onceResolver s = Some p" "p < length (store s)" "store s ! p = Pending"
  shows "\<exists>s'. react k None None s = Some s'
            \<and> store s' ! p = (if queue s' = [] then Fulfilled Undefined else Pending)"
proof -
  define s0 where "s0 = s\<lparr>reactions := drop_nth k (reactions s)\<rparr>"
  define idx where "idx = fst (reactions s ! k)"
  from assms(1,2) have idx: "idx < n" and known: "snd (reactions s ! k) < length (store s)"
    by (auto simp: in_range_def idx_def)
  have b0: "in_range n s0"
    using assms(1) set_drop_nth [of k "reactions s"] by (auto simp: in_range_def s0_def)
  have a0: "active s0 \<or> queue s0 = []" using assms(4) by (simp add: s0_def)
  have o0: "onceResolver s0 = Some p" "p < length (store s0)" "store s0 ! p = Pending"
    using assms(5,6,7) by (simp_all add: s0_def)
  have step: "\<exists>s'. Queue_resolve idx err response None s0 = Some (Normal s')
                \<and> store s' ! p = (if queue s' = [] then Fulfilled Undefined else Pending)"
    for err response
  proof -
    from resolve_returns [OF b0 idx _ a0, of None err response]
    obtain s' where s': "Queue_resolve idx err response None s0 = Some (Normal s')" by auto
    from resolve_once [OF s' o0] s' show ?thesis by blast
  qed
  show ?thesis
  proof (cases "store s ! snd (reactions s ! k)")
    case Pending
    with assms(3) show ?thesis by simp
  next
    case (Fulfilled v)
    from step [of None v] obtain s' where
      "Queue_resolve idx None v None s0 = Some (Normal s')"
      "store s' ! p = (if queue s' = [] then Fulfilled Undefined else Pending)" by blast
    with Fulfilled assms(2) known show ?thesis
      by (simp add: react_def Let_def s0_def idx_def)
  next
    case (Rejected e)
    from step [of "Some e" Null] obtain s' where
      "Queue_resolve idx (Some e) Null None s0 = Some (Normal s')"
      "store s' ! p = (if queue s' = [] then Fulfilled Undefined else Pending)" by blast
    with Rejected assms(2) known show ?thesis
      by (simp add: react_def Let_def s0_def idx_def)
  qed
qed

lemma react_hangs:
  assumes "k < length (reactions s)" "snd (reactions s ! k) < length (store s)"
    and "store s ! snd (reactions s ! k) \<noteq> Pending" "\<not> active s" "queue s \<noteq> []"
  shows "react k None None s = None"
proof -
  let ?s0 = "s\<lparr>reactions := drop_nth k (reactions s)\<rparr>"
  have h: "Queue_resolve idx err response None ?s0 = None" for idx err response
    using assms(4,5) by (intro resolve_hangs) simp_all
  from assms(1,2,3) show ?thesis
    by (cases "store s ! snd (reactions s ! k)") (simp_all add: react_def Let_def h)
qed

subsection \<open>The pool's contracts\<close>

text \<open>
  C1, as the code has it. Take any run of a new pool of width \<open>C\<close>: calls of
  \<open>initialize\<close>, \<open>pause\<close>, \<open>resume\<close>, \<open>stop\<close> and \<open>post\<close>, worker events and the
  callbacks of settled requests, in any order, with a handler that does not throw. In the
  state reached, the size of the available list plus the number of posted requests whose
  callbacks have not run is \<open>C\<close> times the number of \<open>initialize\<close> calls; after exactly
  one \<open>initialize\<close> call, the size of the available list plus the number of busy
  threads is \<open>C\<close>.
\<close>

theorem available_plus_busy:
  assumes "qrun evs (Queue_new scr C h) = Some s" and "list_all quiet evs"
  shows "length (availableThread s) + length (reactions s) = inits evs * C
         \<and> (inits evs = 1 \<longrightarrow> length (availableThread s) + busyCount s = C)"
proof -
  from reachable_balanced [OF assms]
  have b: "balanced (repeat_mset (inits evs) (mset [0..<C])) (inits evs * C) C s" .
  from balanced_sum [OF b]
  have sum: "length (availableThread s) + length (reactions s) = inits evs * C" .
  have "length (availableThread s) + busyCount s = C" if one: "inits evs = 1"
  proof -
    from b one have "balanced (mset [0..<C]) C C s" by simp
    from balanced_busy [OF this] sum one show ?thesis by simp
  qed
  with sum show ?thesis by blast
qed

theorem available_plus_busy_witness:
  "map_option pool_view
     (qrun [Initialize, Post (Many [7, 8, 9]) False, Worker 0 (Message (Val 7)), React 0 None None]
        (Queue_new ''w.js'' 2 True :: (nat, nat) queue_state)) = Some (0, 2, 2)
   \<and> list_all quiet [Initialize, Post (Many [7, 8, 9]) False, Worker 0 (Message (Val 7)),
                      React 0 None None :: (nat, nat) qevent]
   \<and> inits [Initialize, Post (Many [7, 8, 9]) False, Worker 0 (Message (Val 7)),
              React 0 None None :: (nat, nat) qevent] = 1"
proof -
  let ?evs = "[Initialize, Post (Many [7, 8, 9]) False, Worker 0 (Message (Val 7)),
               React 0 None None :: (nat, nat) qevent]"
  let ?q = "Queue_new ''w.js'' 2 True :: (nat, nat) queue_state"
  obtain s where s: "qrun ?evs ?q = Some s"
    by (cases "qrun ?evs ?q") (code_simp, blast)
  have q: "list_all quiet ?evs" by simp
  have i: "inits ?evs = 1" by (simp add: inits_def)
  have "map_option (\<lambda>s. (length (availableThread s), concurrence s)) (qrun ?evs ?q) = Some (0, 2)"
    by code_simp
  with s have l: "length (availableThread s) = 0" "concurrence s = 2" by auto
  from available_plus_busy [OF s q] i l have "busyCount s = 2" by simp
  with s l q i show ?thesis by (simp add: pool_view_def)
qed

text \<open>
  C1 as stated fails on the code. After two \<open>initialize\<close> calls on a pool of width 1
  the available list holds two indices and no thread is busy; and when the handler throws
  in the callback of a fulfilled request, \<open>_resolve\<close> runs a second time from the
  \<open>catch\<close> callback and pushes the index again. In both states the sum is 2, the width 1.
\<close>

theorem available_plus_busy_counterexample:
  "map_option pool_view
     (qrun [Initialize, Initialize] (Queue_new ''w.js'' 1 True :: (nat, nat) queue_state))
     = Some (2, 0, 1)
   \<and> map_option pool_view
     (qrun [Initialize, Post (One 7) False, Worker 0 (Message (Val 7)),
            React 0 (Some (Error ''h'')) None]
        (Queue_new ''w.js'' 1 True :: (nat, nat) queue_state))
     = Some (2, 0, 1)"
  by code_simp

text \<open>
  C6, as the code has it. In a state a pool can reach, let the pool be active, or have no
  available thread, or let the backlog with the new items be empty. Then \<open>post\<close>
  returns a new promise; the backlog is the old one followed by the items, less the items
  dispatched from its front; without \<open>once\<close> the promise is fulfilled on return; with
  \<open>once\<close> it is pending on return and is the pool's drain waiter. And in a state a pool
  can reach in which a pending promise is the drain waiter and the pool is active or the
  backlog empty, the callbacks of a settled request, with a handler that does not throw,
  return and leave the waiter fulfilled when the backlog is then empty, and pending
  otherwise.
\<close>

theorem post_future:
  assumes "qrun evs (Queue_new scr C h) = Some s"
  shows "(active s \<or> availableThread s = [] \<or> queue s @ items_of its = [] \<longrightarrow>
            (\<exists>s'. post its once s = Some (length (store s), s')
                \<and> (\<exists>m. queue s' = drop m (queue s @ items_of its))
                \<and> store s' ! length (store s) = (if once then Pending else Fulfilled Undefined)
                \<and> (once \<longrightarrow> onceResolver s' = Some (length (store s)))))
       \<and> (k < length (reactions s) \<and> store s ! snd (reactions s ! k) \<noteq> Pending
            \<and> (active s \<or> queue s = [])
            \<and> onceResolver s = Some p \<and> p < length (store s) \<and> store s ! p = Pending \<longrightarrow>
            (\<exists>s'. react k None None s = Some s'
                \<and> store s' ! p = (if queue s' = [] then Fulfilled Undefined else Pending)))"
proof -
  from reachable_in_range [OF assms] obtain n where n: "in_range n s" by blast
  from post_returns [OF n] react_resolves [OF n] show ?thesis by blast
qed

theorem post_future_witness:
  "map_option (\<lambda>(p, s'). (p, store s' ! p))
     (Option.bind (qrun [Initialize] (Queue_new ''w.js'' 1 True :: (nat, nat) queue_state))
        (post (One 7) False)) = Some (0, Fulfilled Undefined)
   \<and> map_option (\<lambda>(p, s'). (p, store s' ! p, onceResolver s'))
     (Option.bind (qrun [Initialize] (Queue_new ''w.js'' 1 True :: (nat, nat) queue_state))
        (post (One 7) True)) = Some (0, Pending, Some 0)
   \<and> map_option (future_view \<circ> Pair 0)
     (Option.bind (qrun [Initialize, Post (One 7) True, Worker 0 (Message (Val 7))]
                     (Queue_new ''w.js'' 1 True :: (nat, nat) queue_state))
        (react 0 None None))
       = Some ([], Fulfilled Undefined)"
proof -
  let ?q = "Queue_new ''w.js'' 1 True :: (nat, nat) queue_state"
  obtain s where s: "qrun [Initialize] ?q = Some s"
    by (cases "qrun [Initialize] ?q") (code_simp, blast)
  have "map_option (\<lambda>s. (active s, length (store s))) (qrun [Initialize] ?q) = Some (True, 0)"
    by code_simp
  with s have a: "active s" "length (store s) = 0" by auto
  from post_future [OF s, where its = "One 7" and once = False, THEN conjunct1] a obtain s' where
    "post (One 7) False s = Some (0, s')" "store s' ! 0 = Fulfilled Undefined"
    by auto
  with s have c1: "map_option (\<lambda>(p, s'). (p, store s' ! p))
     (Option.bind (qrun [Initialize] ?q) (post (One 7) False)) = Some (0, Fulfilled Undefined)"
    by simp
  from post_future [OF s, where its = "One 7" and once = True, THEN conjunct1] a obtain s'' where
    "post (One 7) True s = Some (0, s'')" "store s'' ! 0 = Pending" "onceResolver s'' = Some 0"
    by auto
  with s have c2: "map_option (\<lambda>(p, s'). (p, store s' ! p, onceResolver s'))
     (Option.bind (qrun [Initialize] ?q) (post (One 7) True)) = Some (0, Pending, Some 0)"
    by simp
  let ?evs = "[Initialize, Post (One 7) True, Worker 0 (Message (Val 7))] :: (nat, nat) qevent list"
  obtain t where t: "qrun ?evs ?q = Some t"
    by (cases "qrun ?evs ?q") (code_simp, blast)
  have "map_option (\<lambda>s. (active s, onceResolver s, reactions s, store s)) (qrun ?evs ?q)
          = Some (True, Some 0, [(0, 1)], [Pending, Fulfilled (Val 7)])"
    by code_simp
  with t have b: "active t" "onceResolver t = Some 0" "reactions t = [(0, 1)]"
    "store t = [Pending, Fulfilled (Val 7)]"
    by auto
  from post_future [OF t, THEN conjunct2, of 0 0] b obtain t' where
    t': "react 0 None None t = Some t'"
      "store t' ! 0 = (if queue t' = [] then Fulfilled Undefined else Pending)"
    by auto
  have "map_option queue (Option.bind (qrun ?evs ?q) (react 0 None None)) = Some []"
    by code_simp
  with t t'(1) have "queue t' = []" by simp
  with t t' have c3: "map_option (future_view \<circ> Pair 0)
     (Option.bind (qrun ?evs ?q) (react 0 None None)) = Some ([], Fulfilled Undefined)"
    by (simp add: future_view_def)
  from c1 c2 c3 show ?thesis by blast
qed

text \<open>
  C6 as stated fails on the code. In a paused pool with an available thread, \<open>post\<close>
  of one item never returns: \<open>_fillThreads\<close> loops on a \<open>_consume\<close> that does
  nothing. With \<open>once\<close> on an idle pool of width 1 the one item is dispatched inside
  \<open>post\<close>: the backlog is empty on return and the promise pending; it is fulfilled by
  the callback of the item's request. In a pool paused with an item still queued, the
  callback of a settled request never returns, for the same loop. And when the request is
  rejected and the handler throws, the waiter stays pending although the backlog is empty.
\<close>

theorem post_future_counterexample:
  "Option.bind (qrun [Initialize, Pause] (Queue_new ''w.js'' 1 True :: (nat, nat) queue_state))
        (post (One 7) False) = None
   \<and> map_option future_view
        (Option.bind (qrun [Initialize] (Queue_new ''w.js'' 1 True :: (nat, nat) queue_state))
           (post (One 7) True)) = Some ([], Pending)
   \<and> map_option (future_view \<circ> Pair 0)
        (qrun [Initialize, Post (One 7) True, Worker 0 (Message (Val 7)), React 0 None None]
           (Queue_new ''w.js'' 1 True :: (nat, nat) queue_state)) = Some ([], Fulfilled Undefined)
   \<and> Option.bind (qrun [Initialize, Post (Many [7, 8]) True, Pause, Worker 0 (Message (Val 7))]
                   (Queue_new ''w.js'' 1 True :: (nat, nat) queue_state))
        (react 0 None None) = None
   \<and> map_option (future_view \<circ> Pair 0)
        (qrun [Initialize, Post (One 7) True, Worker 0 (WError (Error ''boom'')),
               React 0 (Some (Error ''h'')) None]
           (Queue_new ''w.js'' 1 True :: (nat, nat) queue_state)) = Some ([], Pending)"
proof -
  let ?q = "Queue_new ''w.js'' 1 True :: (nat, nat) queue_state"
  obtain s where s: "qrun [Initialize, Pause] ?q = Some s"
    by (cases "qrun [Initialize, Pause] ?q") (code_simp, blast)
  have "map_option (\<lambda>s. (active s, availableThread s)) (qrun [Initialize, Pause] ?q) = Some (False, [0])"
    by code_simp
  with s have "\<not> active s" "availableThread s \<noteq> []" by auto
  then have "post (One 7) False s = None"
    by (intro post_hangs) (simp_all add: items_of_def)
  with s have c1: "Option.bind (qrun [Initialize, Pause] ?q) (post (One 7) False) = None" by simp
  have c2: "map_option future_view
        (Option.bind (qrun [Initialize] ?q) (post (One 7) True)) = Some ([], Pending)"
    by code_simp
  have c3: "map_option (future_view \<circ> Pair 0)
        (qrun [Initialize, Post (One 7) True, Worker 0 (Message (Val 7)), React 0 None None] ?q)
           = Some ([], Fulfilled Undefined)"
    by code_simp
  let ?evs = "[Initialize, Post (Many [7, 8]) True, Pause, Worker 0 (Message (Val 7))]
                :: (nat, nat) qevent list"
  obtain t where t: "qrun ?evs ?q = Some t"
    by (cases "qrun ?evs ?q") (code_simp, blast)
  have "map_option (\<lambda>s. (active s, queue s, reactions s, store s)) (qrun ?evs ?q)
          = Some (False, [8], [(0, 1)], [Pending, Fulfilled (Val 7)])"
    by code_simp
  with t have "\<not> active t" "queue t = [8]" "reactions t = [(0, 1)]"
    "store t = [Pending, Fulfilled (Val 7)]" by auto
  then have "react 0 None None t = None"
    by (intro react_hangs) simp_all
  with t have c4: "Option.bind (qrun ?evs ?q) (react 0 None None) = None" by simp
  have c5: "map_option (future_view \<circ> Pair 0)
        (qrun [Initialize, Post (One 7) True, Worker 0 (WError (Error ''boom'')),
               React 0 (Some (Error ''h'')) None] ?q) = Some ([], Pending)"
    by code_simp
  from c1 c2 c3 c4 c5 show ?thesis by blast
qed

text \<open>
  C7, as the code has it. Take any run of a new pool with at most one \<open>initialize\<close>
  call and a handler that does not throw. \<open>stop()\<close> called in the state reached leaves
  the active flag cleared, whether it returns or goes to sleep. If \<open>stop()\<close> called there
  returns without sleeping, or a sleeping \<open>stop()\<close> that wakes there (with \<open>j\<close> others
  still asleep) returns, then no thread is busy in that state and every thread of the pool
  is terminated on return. After exactly one \<open>initialize\<close> call, a pass of the loop
  returns exactly when no thread is busy.
\<close>

theorem stop_returns_idle:
  assumes "qrun evs (Queue_new scr C h) = Some s" and "list_all quiet evs" and "inits evs \<le> 1"
  shows "\<not> active (snd (stop s))
       \<and> (fst (stop s) \<longrightarrow>
            busyCount s = 0 \<and> (\<forall>t\<in>set (pool (snd (stop s))). terminated (worker t)))
       \<and> (fst (stop_loop (s\<lparr>stop_sleeping := j\<rparr>)) \<longrightarrow>
            busyCount s = 0
            \<and> (\<forall>t\<in>set (pool (snd (stop_loop (s\<lparr>stop_sleeping := j\<rparr>)))). terminated (worker t)))
       \<and> (inits evs = 1 \<longrightarrow> fst (stop_loop (s\<lparr>stop_sleeping := j\<rparr>)) = (busyCount s = 0))"
proof -
  from reachable_balanced [OF assms(1,2)]
  have b: "balanced (repeat_mset (inits evs) (mset [0..<C])) (inits evs * C) C s" .
  then have w: "concurrence s = C" by (simp add: balanced_def)
  have idle: "busyCount s = 0" if "length (availableThread s) = C"
    using stop_loop_idle [OF b assms(3) that] by (rule busyCount_idle)
  have c1: "busyCount s = 0" if "fst (stop s)"
    using that w by (intro idle) (auto simp: stop_def stop_loop_def split: if_splits)
  have c2: "busyCount s = 0" if "fst (stop_loop (s\<lparr>stop_sleeping := j\<rparr>))"
    using that w by (intro idle) (auto simp: stop_loop_def split: if_splits)
  have c3: "fst (stop_loop (s\<lparr>stop_sleeping := j\<rparr>)) = (busyCount s = 0)" if one: "inits evs = 1"
  proof -
    from b one have "balanced (mset [0..<C]) C C s" by simp
    from balanced_busy [OF this] balanced_sum [OF b] one
    have "length (availableThread s) + busyCount s = C" by simp
    with w show ?thesis by (auto simp: stop_loop_def)
  qed
  have c0: "\<not> active (snd (stop s))"
    by (simp add: stop_def stop_loop_def)
  from c1 c2 c3 have "(fst (stop s) \<longrightarrow>
            busyCount s = 0 \<and> (\<forall>t\<in>set (pool (snd (stop s))). terminated (worker t)))
       \<and> (fst (stop_loop (s\<lparr>stop_sleeping := j\<rparr>)) \<longrightarrow>
            busyCount s = 0
            \<and> (\<forall>t\<in>set (pool (snd (stop_loop (s\<lparr>stop_sleeping := j\<rparr>)))). terminated (worker t)))
       \<and> (inits evs = 1 \<longrightarrow> fst (stop_loop (s\<lparr>stop_sleeping := j\<rparr>)) = (busyCount s = 0))"
    by (auto simp: stop_def dest: stop_loop_closes)
  with c0 show ?thesis by blast
qed

theorem stop_returns_idle_witness:
  "map_option (\<lambda>s. (active (snd (stop s)), stop_sleeping s, fst (stop s),
                     fst (stop_loop (s\<lparr>stop_sleeping := 0\<rparr>)), busyCount s,
                     map (\<lambda>t. terminated (worker t))
                       (pool (snd (stop_loop (s\<lparr>stop_sleeping := 0\<rparr>))))))
     (qrun [Initialize, Post (One 7) False, Stop, Worker 0 (Message (Val 7)), React 0 None None]
        (Queue_new ''w.js'' 2 True :: (nat, nat) queue_state))
   = Some (False, 1, True, True, 0, [True, True])"
proof -
  let ?evs = "[Initialize, Post (One 7) False, Stop, Worker 0 (Message (Val 7)),
               React 0 None None :: (nat, nat) qevent]"
  let ?q = "Queue_new ''w.js'' 2 True :: (nat, nat) queue_state"
  obtain s where s: "qrun ?evs ?q = Some s"
    by (cases "qrun ?evs ?q") (code_simp, blast)
  let ?r = "stop_loop (s\<lparr>stop_sleeping := 0\<rparr>)"
  have q: "list_all quiet ?evs" by simp
  have i: "inits ?evs \<le> 1" "inits ?evs = 1" by (simp_all add: inits_def)
  have "map_option (\<lambda>s. (stop_sleeping s, fst (stop s),
                          length (pool (snd (stop_loop (s\<lparr>stop_sleeping := 0\<rparr>))))))
          (qrun ?evs ?q) = Some (1, True, 2)"
    by code_simp
  with s have l: "stop_sleeping s = 1" "fst (stop s)" "length (pool (snd ?r)) = 2" by auto
  note idle = stop_returns_idle [OF s q i(1), of 0]
  from idle have flag: "\<not> active (snd (stop s))" by blast
  from idle l(2) have busy: "busyCount s = 0" by blast
  with idle i(2) have ret: "fst ?r" by blast
  with idle have "\<forall>t\<in>set (pool (snd ?r)). terminated (worker t)" by blast
  then have "map (\<lambda>t. terminated (worker t)) (pool (snd ?r)) = replicate (length (pool (snd ?r))) True"
    by (simp add: map_replicate_const [symmetric] cong: map_cong)
  with s l flag busy ret show ?thesis by (simp add: numeral_2_eq_2)
qed

text \<open>
  C7 as stated fails on the code. After two \<open>initialize\<close> calls on a pool of width 1
  and one posted item, thread 0 is busy and the available list has one index, as many as
  the width: \<open>stop()\<close> returns at once. The same after one \<open>initialize\<close> on a pool of
  width 2 when the handler has thrown in the callback of a fulfilled request: the
  available list is \<open>[0, 0]\<close> while thread 1 is busy.
\<close>

theorem stop_returns_idle_counterexample:
  "map_option stop_view
     (qrun [Initialize, Initialize, Post (One 7) False]
        (Queue_new ''w.js'' 1 True :: (nat, nat) queue_state))
     = Some (True, 1)
   \<and> map_option stop_view
     (qrun [Initialize, Post (Many [7, 8]) False, Worker 0 (Message (Val 7)),
            React 0 (Some (Error ''h'')) None]
        (Queue_new ''w.js'' 2 True :: (nat, nat) queue_state))
     = Some (True, 1)"
  by code_simp

end
